theory Spec2Isabelle
  imports Main
begin

section \<open>Layer-aware pointer events: the DOM as the library sees it\<close>

text \<open>
  The library (\<^verbatim>\<open>lib/index.ts\<close>) reads a live DOM through a handful of host
  operations and never changes it. Elements are identified by a number. A shadow root is
  identified by its host element, since an element owns at most one shadow root and
  \<^verbatim>\<open>shadowRoot.host\<close> gives the element back.
\<close>

type_synonym elem = nat

text \<open>
  A \<^verbatim>\<open>DocumentOrShadowRoot\<close> as the library accepts it: the global \<^verbatim>\<open>document\<close>
  or a \<^verbatim>\<open>ShadowRoot\<close> instance.
\<close>

datatype scope = Document | ShadowRoot elem

text \<open>
  A \<^verbatim>\<open>Node\<close>, as \<^verbatim>\<open>findRootNode\<close> may meet one: a scope, an element, or any other
  node (a document fragment, the document of another frame, ...).
\<close>

datatype node = ScopeNode scope | ElementNode elem | OtherNode nat

text \<open>The two errors the library throws.\<close>

datatype error =
  ExpectedElement \<comment> \<open>\<^verbatim>\<open>'Expected event.currentTarget to be an Element'\<close>\<close>
  | ExpectedDocumentOrShadowRoot \<comment> \<open>\<^verbatim>\<open>'Expected root node to be a DocumentOrShadowRoot'\<close>\<close>

text \<open>
  The host operations, as one snapshot of the page. \<open>'n\<close> is the type of coordinates
  (JavaScript numbers); the library only hands them to the hit test.
  \<^item> \<open>elementsFromPoint s x y\<close> is \<^verbatim>\<open>s.elementsFromPoint(x, y)\<close>, topmost first;
  \<^item> \<open>parentNode n\<close> is \<^verbatim>\<open>n.parentNode\<close>, \<open>None\<close> for \<^verbatim>\<open>null\<close>;
  \<^item> \<open>documentElement\<close> is \<^verbatim>\<open>document.documentElement\<close>, \<open>None\<close> for \<^verbatim>\<open>null\<close>;
  \<^item> \<open>pointerEventsNone e\<close> is \<^verbatim>\<open>getComputedStyle(e).pointerEvents === 'none'\<close>;
  \<^item> \<open>openShadowRoot e\<close> tells whether \<^verbatim>\<open>e.shadowRoot\<close> is not \<^verbatim>\<open>null\<close>; the shadow
    root is then \<open>ShadowRoot e\<close>.
\<close>

record 'n dom =
  elementsFromPoint :: "scope \<Rightarrow> 'n \<Rightarrow> 'n \<Rightarrow> elem list"
  parentNode :: "node \<Rightarrow> node option"
  documentElement :: "elem option"
  pointerEventsNone :: "elem \<Rightarrow> bool"
  openShadowRoot :: "elem \<Rightarrow> bool"

text \<open>
  \<^verbatim>\<open>e.parentElement\<close>: the parent node when that is an element, \<^verbatim>\<open>null\<close> otherwise.
\<close>

definition parentElement :: "'n dom \<Rightarrow> elem \<Rightarrow> elem option" where
  "parentElement d e =
     (case parentNode d (ElementNode e) of
        Some (ElementNode p) \<Rightarrow> Some p
      | _ \<Rightarrow> None)"

subsection \<open>Results: a function returns, throws, or does not return\<close>

text \<open>
  A call that returns \<open>v\<close> is \<open>Some (Inr v)\<close>, one that throws \<open>e\<close> is
  \<open>Some (Inl e)\<close>, and one that runs forever is \<open>None\<close>.
\<close>

type_synonym 'a result = "(error + 'a) option"

definition ok :: "'a \<Rightarrow> 'a result" where
  "ok v = Some (Inr v)"

definition throw :: "error \<Rightarrow> 'a result" where
  "throw e = Some (Inl e)"

definition bindR :: "'a result \<Rightarrow> ('a \<Rightarrow> 'b result) \<Rightarrow> 'b result" where
  "bindR m f =
     (case m of
        None \<Rightarrow> None
      | Some (Inl e) \<Rightarrow> Some (Inl e)
      | Some (Inr v) \<Rightarrow> f v)"

lemma bindR_simps [simp]:
  "bindR None f = None"
  "bindR (Some (Inl e)) f = Some (Inl e)"
  "bindR (Some (Inr v)) f = f v"
  "bindR (ok v) f = f v"
  "bindR (throw e) f = throw e"
  by (simp_all add: bindR_def ok_def throw_def)

lemma bindR_mono [partial_function_mono]:
  assumes "mono_option B" and "\<And>v. mono_option (\<lambda>f. C v f)"
  shows "mono_option (\<lambda>f. bindR (B f) (\<lambda>v. C v f))"
proof -
  have eq: "\<And>f. bindR (B f) (\<lambda>v. C v f)
      = Option.bind (B f) (\<lambda>r. case r of Inl e \<Rightarrow> Some (Inl e) | Inr v \<Rightarrow> C v f)"
    by (simp add: bindR_def split: option.splits sum.splits)
  have step: "mono_option (\<lambda>f. case r of Inl e \<Rightarrow> Some (Inl e) | Inr v \<Rightarrow> C v f)" for r
    using assms(2) by (cases r) (simp_all add: option.const_mono)
  have "mono_option (\<lambda>f. Option.bind (B f) (\<lambda>r. case r of Inl e \<Rightarrow> Some (Inl e) | Inr v \<Rightarrow> C v f))"
    by (rule bind_mono [OF assms(1) step])
  then show ?thesis by (simp only: eq)
qed

lemma bindR_eq_ok:
  "bindR m f = Some (Inr w) \<longleftrightarrow> (\<exists>v. m = Some (Inr v) \<and> f v = Some (Inr w))"
  by (auto simp: bindR_def split: option.splits sum.splits)

section \<open>Type guards and \<^verbatim>\<open>findRootNode\<close>\<close>

definition isElement :: "node option \<Rightarrow> bool" where
  "isElement v = (case v of Some (ElementNode _) \<Rightarrow> True | _ \<Rightarrow> False)"

definition isShadowRoot :: "node \<Rightarrow> bool" where
  "isShadowRoot v = (case v of ScopeNode (ShadowRoot _) \<Rightarrow> True | _ \<Rightarrow> False)"

definition isDocumentOrShadowRoot :: "node \<Rightarrow> bool" where
  "isDocumentOrShadowRoot v = (v = ScopeNode Document \<or> isShadowRoot v)"

text \<open>
  \<^verbatim>\<open>while (node.parentNode) node = node.parentNode; return node\<close>. The loop ends on
  every real page; the model does not assume it.
\<close>

partial_function (option) findRootNode :: "'n dom \<Rightarrow> node \<Rightarrow> node option" where
  "findRootNode d n =
     (case parentNode d n of
        None \<Rightarrow> Some n
      | Some p \<Rightarrow> findRootNode d p)"

text \<open>
  The specification speaks of the document-or-shadow-root that owns an element: the node
  reached from it by going up from parent to parent, as long as there is one. This
  follows those words and is compared with \<^verbatim>\<open>findRootNode\<close> below.
\<close>

inductive spec_owningRoot :: "'n dom \<Rightarrow> node \<Rightarrow> node \<Rightarrow> bool" for d :: "'n dom" where
  top: "parentNode d n = None \<Longrightarrow> spec_owningRoot d n n"
| up: "parentNode d n = Some p \<Longrightarrow> spec_owningRoot d p r \<Longrightarrow> spec_owningRoot d n r"

section \<open>\<^verbatim>\<open>engineIndependentElementsFromPoint\<close>\<close>

text \<open>
  \<^verbatim>\<open>lastElement !== document.documentElement\<close>, where \<^verbatim>\<open>lastElement\<close> is
  \<^verbatim>\<open>elements[elements.length - 1]\<close>: \<^verbatim>\<open>undefined\<close> for an empty list, which is not
  identical to any element and not to \<^verbatim>\<open>null\<close> either.
\<close>

definition lastIsDocumentElement :: "'n dom \<Rightarrow> elem list \<Rightarrow> bool" where
  "lastIsDocumentElement d elements =
     (elements \<noteq> [] \<and> documentElement d = Some (last elements))"

text \<open>
  The two nested \<^verbatim>\<open>if\<close>s before the \<^verbatim>\<open>return\<close>: \<^verbatim>\<open>higherElements.splice(0, 1)\<close>
  when the host is styled \<^verbatim>\<open>pointer-events: none\<close> and \<^verbatim>\<open>higherElements[0] === host\<close>
  (\<^verbatim>\<open>undefined\<close>, so never the host, for an empty list).
\<close>

definition trimHost :: "'n dom \<Rightarrow> elem \<Rightarrow> elem list \<Rightarrow> elem list" where
  "trimHost d host higherElements =
     (if pointerEventsNone d host then
        (case higherElements of
           [] \<Rightarrow> higherElements
         | first # rest \<Rightarrow> if first = host then rest else higherElements)
      else higherElements)"

partial_function (option) engineIndependentElementsFromPoint ::
    "'n dom \<Rightarrow> 'n \<Rightarrow> 'n \<Rightarrow> scope \<Rightarrow> elem list result" where
  "engineIndependentElementsFromPoint d x y documentOrShadowRoot =
     (let elements = elementsFromPoint d documentOrShadowRoot x y in
      case documentOrShadowRoot of
        ShadowRoot host \<Rightarrow>
          if \<not> lastIsDocumentElement d elements then
            (case findRootNode d (ElementNode host) of
               None \<Rightarrow> None
             | Some (ScopeNode higherDom) \<Rightarrow>
                 bindR (engineIndependentElementsFromPoint d x y higherDom)
                   (\<lambda>higherElements. ok (elements @ trimHost d host higherElements))
             | Some _ \<Rightarrow> throw ExpectedDocumentOrShadowRoot)
          else ok elements
      | Document \<Rightarrow> ok elements)"

section \<open>\<^verbatim>\<open>elementTreeFromPoint\<close>\<close>

text \<open>The interface \<^verbatim>\<open>ElementTree\<close>; the \<^verbatim>\<open>Map\<close> is only ever read with \<^verbatim>\<open>get\<close>.\<close>

record ElementTree =
  root :: elem
  elementsByParent :: "elem \<rightharpoonup> elem list"

text \<open>
  The four variables that \<^verbatim>\<open>elementTreeFromPoint\<close> declares and its inner function
  \<^verbatim>\<open>recurse\<close> mutates: \<^verbatim>\<open>root\<close> (here \<open>rootVar\<close>, \<open>None\<close> for \<^verbatim>\<open>null\<close>),
  \<^verbatim>\<open>elementsByParent\<close> (here \<open>byParent\<close>), \<^verbatim>\<open>processedElements\<close> and
  \<^verbatim>\<open>processedShadowRootElements\<close>.
\<close>

record build_state =
  rootVar :: "elem option"
  byParent :: "elem \<rightharpoonup> elem list"
  processedElements :: "elem set"
  processedShadowRootElements :: "elem set"

definition initialState :: build_state where
  "initialState =
     \<lparr>rootVar = None, byParent = Map.empty,
      processedElements = {}, processedShadowRootElements = {}\<rparr>"

definition addToKeyedList :: "('k \<rightharpoonup> 'v list) \<Rightarrow> 'k \<Rightarrow> 'v \<Rightarrow> ('k \<rightharpoonup> 'v list)" where
  "addToKeyedList keyedList parent child =
     (let keyedList' = (if keyedList parent = None then keyedList(parent \<mapsto> []) else keyedList)
      in keyedList'(parent \<mapsto> the (keyedList' parent) @ [child]))"

text \<open>
  The \<^verbatim>\<open>while (true)\<close> loop that steps up the visibility chain. \<open>parent\<close> and
  \<open>mutableHigherPotentialParents\<close> are the loop's two variables; \<^verbatim>\<open>pop()\<close> takes the
  last entry of the array.
\<close>

partial_function (option) stepUp ::
    "'n dom \<Rightarrow> elem \<Rightarrow> elem set \<Rightarrow> elem option \<Rightarrow> elem list \<Rightarrow> build_state
      \<Rightarrow> build_state option" where
  "stepUp d element potentialParents parent mutableHigherPotentialParents st =
     (case parent of
        Some p \<Rightarrow>
          if p \<in> potentialParents then
            Some (st\<lparr>byParent := addToKeyedList (byParent st) p element,
                     processedElements := insert element (processedElements st)\<rparr>)
          else stepUp d element potentialParents (parentElement d p)
                 mutableHigherPotentialParents st
      | None \<Rightarrow>
          if mutableHigherPotentialParents \<noteq> [] then
            stepUp d element potentialParents (Some (last mutableHigherPotentialParents))
              (butlast mutableHigherPotentialParents) st
          else Some (st\<lparr>rootVar := Some element\<rparr>))"

text \<open>A \<^verbatim>\<open>for ... of\<close> loop whose body may throw or not return.\<close>

fun forEachR :: "('a \<Rightarrow> 's \<Rightarrow> 's result) \<Rightarrow> 'a list \<Rightarrow> 's \<Rightarrow> 's result" where
  "forEachR body [] s = ok s"
| "forEachR body (v # vs) s = bindR (body v s) (forEachR body vs)"

lemma forEachR_mono [partial_function_mono]:
  assumes "\<And>v s. mono_option (\<lambda>f. body f v s)"
  shows "mono_option (\<lambda>f. forEachR (body f) vs s)"
proof (induction vs arbitrary: s)
  case Nil
  show ?case by (simp add: option.const_mono)
next
  case (Cons v vs)
  show ?case
    unfolding forEachR.simps
    by (rule bindR_mono [OF assms Cons.IH])
qed

text \<open>
  The body of the \<^verbatim>\<open>for\<close> loop of the inner function \<^verbatim>\<open>recurse\<close>, for one entry
  \<^verbatim>\<open>[i, element]\<close> of \<^verbatim>\<open>elements.entries()\<close>; \<open>rec\<close> stands for the recursive call
  \<^verbatim>\<open>recurse(element.shadowRoot, [...higherPotentialParents, element])\<close>. The closure's
  variables are passed in and returned.
\<close>

abbreviation entryBody ::
  "(scope \<Rightarrow> elem list \<Rightarrow> build_state \<Rightarrow> build_state result) \<Rightarrow> 'n dom \<Rightarrow> elem list
    \<Rightarrow> elem list \<Rightarrow> nat \<times> elem \<Rightarrow> build_state \<Rightarrow> build_state result" where
  "entryBody rec d elements higherPotentialParents \<equiv>
     (\<lambda>entry st.
        let i = fst entry; element = snd entry in
        if element \<in> processedElements st then ok st
        else if openShadowRoot d element \<and> element \<notin> processedShadowRootElements st then
          rec (ShadowRoot element) (higherPotentialParents @ [element])
            (st\<lparr>processedShadowRootElements :=
                  insert element (processedShadowRootElements st)\<rparr>)
        else
          (case stepUp d element (set (drop (i + 1) elements)) (parentElement d element)
                  higherPotentialParents st of
             None \<Rightarrow> None
           | Some st' \<Rightarrow> ok st'))"

text \<open>
  The inner function \<^verbatim>\<open>recurse(dom, higherPotentialParents)\<close> (\<open>domScope\<close> is its
  parameter \<^verbatim>\<open>dom\<close>): the normalized query of the scope, then the loop over its entries.
\<close>

partial_function (option) recurse ::
    "'n dom \<Rightarrow> 'n \<Rightarrow> 'n \<Rightarrow> scope \<Rightarrow> elem list \<Rightarrow> build_state \<Rightarrow> build_state result" where
  "recurse d x y domScope higherPotentialParents st =
     bindR (engineIndependentElementsFromPoint d x y domScope) (\<lambda>elements.
       forEachR (entryBody (recurse d x y) d elements higherPotentialParents)
         (enumerate 0 elements) st)"

definition elementTreeFromPoint ::
    "'n dom \<Rightarrow> 'n \<Rightarrow> 'n \<Rightarrow> scope \<Rightarrow> ElementTree option result" where
  "elementTreeFromPoint d x y topDocumentOrShadowRoot =
     bindR (recurse d x y topDocumentOrShadowRoot [] initialState) (\<lambda>st.
       ok (case rootVar st of
             Some r \<Rightarrow> Some \<lparr>root = r, elementsByParent = byParent st\<rparr>
           | None \<Rightarrow> None))"

section \<open>\<^verbatim>\<open>flattenElementTree\<close> and \<^verbatim>\<open>getDefaultPathElementSet\<close>\<close>

text \<open>
  \<^verbatim>\<open>array.flatMap(callback)\<close> for a callback that returns an array, or does not
  return at all.
\<close>

fun flatMapO :: "('a \<Rightarrow> 'b list option) \<Rightarrow> 'a list \<Rightarrow> 'b list option" where
  "flatMapO callback [] = Some []"
| "flatMapO callback (v # vs) =
     Option.bind (callback v) (\<lambda>first.
       Option.bind (flatMapO callback vs) (\<lambda>rest. Some (first @ rest)))"

lemma flatMapO_mono [partial_function_mono]:
  assumes "\<And>v. mono_option (\<lambda>f. callback f v)"
  shows "mono_option (\<lambda>f. flatMapO (callback f) vs)"
proof (induction vs)
  case Nil
  show ?case by (simp add: option.const_mono)
next
  case (Cons v vs)
  show ?case
    unfolding flatMapO.simps
    by (intro bind_mono assms Cons.IH option.const_mono)
qed

text \<open>\<^verbatim>\<open>elementsByParent.get(root) || []\<close>.\<close>

definition childrenOf :: "(elem \<rightharpoonup> elem list) \<Rightarrow> elem \<Rightarrow> elem list" where
  "childrenOf m rootEl = (case m rootEl of None \<Rightarrow> [] | Some children \<Rightarrow> children)"

partial_function (option) flattenElementTree ::
    "(elem \<rightharpoonup> elem list) \<Rightarrow> elem \<Rightarrow> elem list option" where
  "flattenElementTree m rootEl =
     Option.bind (flatMapO (\<lambda>child. flattenElementTree m child) (childrenOf m rootEl))
       (\<lambda>children. Some (children @ [rootEl]))"

text \<open>\<^verbatim>\<open>elementsByParent.get(root)?.[0]\<close>, \<open>None\<close> for \<^verbatim>\<open>undefined\<close>.\<close>

definition firstChildOf :: "(elem \<rightharpoonup> elem list) \<Rightarrow> elem \<Rightarrow> elem option" where
  "firstChildOf m rootEl =
     (case m rootEl of
        None \<Rightarrow> None
      | Some [] \<Rightarrow> None
      | Some (firstChild # _) \<Rightarrow> Some firstChild)"

partial_function (option) getDefaultPathElementSet ::
    "(elem \<rightharpoonup> elem list) \<Rightarrow> elem \<Rightarrow> elem set option" where
  "getDefaultPathElementSet m rootEl =
     (case firstChildOf m rootEl of
        Some firstChild \<Rightarrow>
          Option.bind (getDefaultPathElementSet m firstChild)
            (\<lambda>subElements. Some (insert rootEl subElements))
      | None \<Rightarrow> Some {rootEl})"

section \<open>\<^verbatim>\<open>dispatchToUnderlyingElements\<close>\<close>

text \<open>
  What the function reads of the incoming event. \<open>currentTarget\<close> is \<open>None\<close> for
  \<^verbatim>\<open>null\<close>; a target that is no node (a window) is listed under \<open>OtherNode\<close>, as it
  fails \<^verbatim>\<open>instanceof Element\<close> all the same. \<open>eventX\<close> and \<open>eventY\<close> are
  \<^verbatim>\<open>event.x\<close> and \<^verbatim>\<open>event.y\<close>.
\<close>

record 'n mouse_event =
  defaultPrevented :: bool
  currentTarget :: "node option"
  eventX :: 'n
  eventY :: 'n

text \<open>
  What the function does to the outside: \<open>dispatches\<close> lists, in order, each element
  that received a synthesized event, with \<^verbatim>\<open>clone.defaultPrevented\<close> as read after the
  dispatch; \<open>preventDefaultCalled\<close> tells whether \<^verbatim>\<open>event.preventDefault()\<close> was
  called on the incoming event; \<open>world\<close> is whatever the listeners keep between calls.
\<close>

record 'w outcome =
  dispatches :: "(elem \<times> bool) list"
  preventDefaultCalled :: bool
  world :: 'w

definition untouched :: "'w \<Rightarrow> 'w outcome" where
  "untouched w = \<lparr>dispatches = [], preventDefaultCalled = False, world = w\<rparr>"

text \<open>
  The \<^verbatim>\<open>for (const element of subtree)\<close> loop. \<open>dispatchEvent w element\<close> stands for
  building the clone and \<^verbatim>\<open>element.dispatchEvent(clone)\<close>: it runs the listeners of
  \<open>element\<close> in the world \<open>w\<close> and gives the new world and \<^verbatim>\<open>clone.defaultPrevented\<close>.
  The event type and the init dictionary (built once, before the loop, by
  \<^verbatim>\<open>mouseEventInitDictBuilder\<close>, which is taken to return) only shape the clone and
  are part of \<open>dispatchEvent\<close>. The subtree and the default path are computed before
  the first dispatch, so what the listeners do to the page does not change the loop.
\<close>

fun dispatchLoop ::
    "('w \<Rightarrow> elem \<Rightarrow> 'w \<times> bool) \<Rightarrow> elem set \<Rightarrow> elem list \<Rightarrow> 'w outcome \<Rightarrow> 'w outcome" where
  "dispatchLoop dispatchEvent defaultPathElementSet [] out = out"
| "dispatchLoop dispatchEvent defaultPathElementSet (element # rest) out =
     (if element \<in> defaultPathElementSet then
        dispatchLoop dispatchEvent defaultPathElementSet rest out
      else
        let (w', cloneDefaultPrevented) = dispatchEvent (world out) element;
            out' = out\<lparr>dispatches := dispatches out @ [(element, cloneDefaultPrevented)],
                       world := w'\<rparr>
        in if cloneDefaultPrevented then out'\<lparr>preventDefaultCalled := True\<rparr>
           else dispatchLoop dispatchEvent defaultPathElementSet rest out')"

definition dispatchToUnderlyingElements ::
    "'n dom \<Rightarrow> ('w \<Rightarrow> elem \<Rightarrow> 'w \<times> bool) \<Rightarrow> 'w \<Rightarrow> 'n mouse_event \<Rightarrow> 'w outcome result" where
  "dispatchToUnderlyingElements d dispatchEvent w event =
     (if defaultPrevented event then ok (untouched w)
      else
        case currentTarget event of
          Some (ElementNode target) \<Rightarrow>
            (case findRootNode d (ElementNode target) of
               None \<Rightarrow> None
             | Some (ScopeNode domScope) \<Rightarrow>
                 bindR (elementTreeFromPoint d (eventX event) (eventY event) domScope)
                   (\<lambda>tree.
                      case tree of
                        None \<Rightarrow> ok (untouched w)
                      | Some t \<Rightarrow>
                          (case flattenElementTree (elementsByParent t) target of
                             None \<Rightarrow> None
                           | Some subtree \<Rightarrow>
                               (case getDefaultPathElementSet (elementsByParent t) target of
                                  None \<Rightarrow> None
                                | Some defaultPathElementSet \<Rightarrow>
                                    ok (dispatchLoop dispatchEvent defaultPathElementSet
                                          subtree (untouched w)))))
             | Some _ \<Rightarrow> throw ExpectedDocumentOrShadowRoot)
        | _ \<Rightarrow> throw ExpectedElement)"

section \<open>The tree a parent map unfolds to\<close>

text \<open>
  The specification speaks of the subtree under an element, its depth-first post-order
  and its chain of first children. These follow its words, on a finite tree, and are
  compared with the functions above.
\<close>

datatype tree = Node elem "tree list"

fun rootOf :: "tree \<Rightarrow> elem" where
  "rootOf (Node r ts) = r"

fun unfoldsTo :: "(elem \<rightharpoonup> elem list) \<Rightarrow> tree \<Rightarrow> bool" where
  "unfoldsTo m (Node r ts) = (map rootOf ts = childrenOf m r \<and> list_all (unfoldsTo m) ts)"

fun spec_postorder :: "tree \<Rightarrow> elem list" where
  "spec_postorder (Node r ts) = concat (map spec_postorder ts) @ [r]"

fun spec_defaultPath :: "tree \<Rightarrow> elem list" where
  "spec_defaultPath (Node r []) = [r]"
| "spec_defaultPath (Node r (t # ts)) = r # spec_defaultPath t"

section \<open>Example pages\<close>

text \<open>
  Pages are written down by the parent node of each element; every other node has none.
\<close>

definition elementParents :: "(elem \<times> node) list \<Rightarrow> node \<Rightarrow> node option" where
  "elementParents ps n = (case n of ElementNode e \<Rightarrow> map_of ps e | _ \<Rightarrow> None)"

text \<open>
  The page of the test \<^verbatim>\<open>shadow-dom-element\<close>: \<open>0\<close> is \<^verbatim>\<open><html>\<close>, \<open>1\<close> is
  \<^verbatim>\<open><body>\<close>, \<open>2\<close> is \<^verbatim>\<open><shadow-dom-element>\<close> and \<open>3\<close> the \<^verbatim>\<open><div>\<close> in its
  shadow DOM. The hit test answers at the point (0, 0) as the Gecko engine does: asked
  from the shadow root, it stops at the shadow boundary.
\<close>

definition geckoPage :: "int dom" where
  "geckoPage =
     \<lparr>elementsFromPoint = (\<lambda>s x y.
          if x = 0 \<and> y = 0 then
            (case s of Document \<Rightarrow> [2, 1, 0] | ShadowRoot h \<Rightarrow> if h = 2 then [3] else [])
          else []),
      parentNode = elementParents
        [(3, ScopeNode (ShadowRoot 2)), (2, ElementNode 1), (1, ElementNode 0),
         (0, ScopeNode Document)],
      documentElement = Some 0,
      pointerEventsNone = (\<lambda>e. False),
      openShadowRoot = (\<lambda>e. e = 2)\<rparr>"

text \<open>The same page with \<^verbatim>\<open>style="pointer-events: none"\<close> on the host.\<close>

definition geckoPageNone :: "int dom" where
  "geckoPageNone = geckoPage\<lparr>pointerEventsNone := (\<lambda>e. e = 2)\<rparr>"

text \<open>
  The same page on an engine that walks out of the shadow DOM by itself: asked from the
  shadow root, the hit test goes on to \<^verbatim>\<open><html>\<close>.
\<close>

definition compatPage :: "int dom" where
  "compatPage =
     geckoPage\<lparr>elementsFromPoint := (\<lambda>s x y.
        if x = 0 \<and> y = 0 then
          (case s of
             Document \<Rightarrow> [2, 1, 0]
           | ShadowRoot h \<Rightarrow> if h = 2 then [3, 2, 1, 0] else [])
        else [])\<rparr>"

text \<open>
  The host styled \<^verbatim>\<open>pointer-events: none\<close>, with nothing of its shadow DOM under the
  point while the document still reports the host.
\<close>

definition emptyShadowPage :: "int dom" where
  "emptyShadowPage =
     geckoPageNone\<lparr>elementsFromPoint := (\<lambda>s x y.
        case s of Document \<Rightarrow> [2, 1, 0] | ShadowRoot h \<Rightarrow> [])\<rparr>"

text \<open>
  The page of the test \<^verbatim>\<open>containing-shadow-dom-element\<close>, on the Gecko engine: \<open>0\<close> is
  \<^verbatim>\<open><html>\<close>, \<open>1\<close> \<^verbatim>\<open><body>\<close>, \<open>2\<close> \<^verbatim>\<open><containing-shadow-dom-element>\<close>, \<open>3\<close> the
  \<^verbatim>\<open><shadow-dom-element>\<close> in the shadow DOM of \<open>2\<close>, and \<open>4\<close> the \<^verbatim>\<open><div>\<close> in the
  shadow DOM of \<open>3\<close>.
\<close>

definition nestedPage :: "int dom" where
  "nestedPage =
     \<lparr>elementsFromPoint = (\<lambda>s x y.
          if x = 0 \<and> y = 0 then
            (case s of
               Document \<Rightarrow> [2, 1, 0]
             | ShadowRoot h \<Rightarrow> if h = 2 then [3] else if h = 3 then [4] else [])
          else []),
      parentNode = elementParents
        [(4, ScopeNode (ShadowRoot 3)), (3, ScopeNode (ShadowRoot 2)), (2, ElementNode 1),
         (1, ElementNode 0), (0, ScopeNode Document)],
      documentElement = Some 0,
      pointerEventsNone = (\<lambda>e. False),
      openShadowRoot = (\<lambda>e. e = 2 \<or> e = 3)\<rparr>"

text \<open>
  A page with an element, \<open>5\<close>, that is attached nowhere and hosts a shadow root, which
  has nothing under any point.
\<close>

definition detachedElementPage :: "int dom" where
  "detachedElementPage =
     \<lparr>elementsFromPoint = (\<lambda>s x y. case s of Document \<Rightarrow> [1, 0] | ShadowRoot h \<Rightarrow> []),
      parentNode = elementParents [(1, ElementNode 0), (0, ScopeNode Document)],
      documentElement = Some 0,
      pointerEventsNone = (\<lambda>e. False),
      openShadowRoot = (\<lambda>e. e = 5)\<rparr>"

text \<open>
  A host that is not attached to the page: element \<open>5\<close> lies in a document fragment,
  \<open>OtherNode 0\<close>, and its shadow root reports \<open>6\<close> under the point.
\<close>

definition detachedHostPage :: "int dom" where
  "detachedHostPage =
     \<lparr>elementsFromPoint = (\<lambda>s x y.
          case s of Document \<Rightarrow> [1, 0] | ShadowRoot h \<Rightarrow> if h = 5 then [6] else []),
      parentNode = elementParents
        [(6, ScopeNode (ShadowRoot 5)), (5, OtherNode 0), (1, ElementNode 0),
         (0, ScopeNode Document)],
      documentElement = Some 0,
      pointerEventsNone = (\<lambda>e. False),
      openShadowRoot = (\<lambda>e. e = 5)\<rparr>"

text \<open>
  The page of the test \<^verbatim>\<open>structure including shadow dom element\<close>: \<open>0\<close> is
  \<^verbatim>\<open><html>\<close>, \<open>1\<close> \<^verbatim>\<open><body>\<close>, \<open>2\<close> \<^verbatim>\<open>#container\<close>, \<open>3\<close> \<^verbatim>\<open>#lowest\<close>, \<open>4\<close>
  \<^verbatim>\<open>#inside-lowest\<close>, \<open>5\<close> \<^verbatim>\<open><shadow-dom-element>\<close>, \<open>6\<close> the \<^verbatim>\<open><div>\<close> in its shadow
  DOM, \<open>7\<close> \<^verbatim>\<open>#highest\<close> and \<open>8\<close> \<^verbatim>\<open>#inside-highest\<close>.
\<close>

definition layeredPage :: "int dom" where
  "layeredPage =
     \<lparr>elementsFromPoint = (\<lambda>s x y.
          if x = 0 \<and> y = 0 then
            (case s of
               Document \<Rightarrow> [8, 7, 5, 4, 3, 2, 1, 0]
             | ShadowRoot h \<Rightarrow> if h = 5 then [6] else [])
          else []),
      parentNode = elementParents
        [(8, ElementNode 7), (7, ElementNode 2), (6, ScopeNode (ShadowRoot 5)),
         (5, ElementNode 2), (4, ElementNode 3), (3, ElementNode 2), (2, ElementNode 1),
         (1, ElementNode 0), (0, ScopeNode Document)],
      documentElement = Some 0,
      pointerEventsNone = (\<lambda>e. False),
      openShadowRoot = (\<lambda>e. e = 5)\<rparr>"

definition layeredTree :: ElementTree where
  "layeredTree =
     \<lparr>root = 0,
      elementsByParent =
        map_of [(7, [8]), (2, [7, 5, 3]), (5, [6]), (3, [4]), (1, [2]), (0, [1])]\<rparr>"

text \<open>The subtree of \<open>layeredTree\<close> under \<^verbatim>\<open>#container\<close>.\<close>

definition containerSubtree :: tree where
  "containerSubtree =
     Node 2 [Node 7 [Node 8 []], Node 5 [Node 6 []], Node 3 [Node 4 []]]"

text \<open>A click at (0, 0) that has bubbled up to \<^verbatim>\<open>#container\<close>.\<close>

definition containerClick :: "int mouse_event" where
  "containerClick =
     \<lparr>defaultPrevented = False, currentTarget = Some (ElementNode 2),
      eventX = 0, eventY = 0\<rparr>"

text \<open>
  Listeners that count the events they have seen, with one on \<^verbatim>\<open>#inside-lowest\<close> that
  calls \<^verbatim>\<open>preventDefault()\<close>; and listeners that only count.
\<close>

definition cancelAtInsideLowest :: "int \<Rightarrow> elem \<Rightarrow> int \<times> bool" where
  "cancelAtInsideLowest w element = (w + 1, element = 4)"

definition onlyCount :: "int \<Rightarrow> elem \<Rightarrow> int \<times> bool" where
  "onlyCount w element = (w + 1, False)"

section \<open>The shape of a parent map\<close>

text \<open>The pairs of a parent and one of its children in a parent map.\<close>

definition childEdges :: "(elem \<rightharpoonup> elem list) \<Rightarrow> (elem \<times> elem) set" where
  "childEdges m = {(p, c). c \<in> set (childrenOf m p)}"

text \<open>
  No element occurs twice in one child list, and no element occurs in the child lists of
  two parents.
\<close>

definition eachChildOnce :: "(elem \<rightharpoonup> elem list) \<Rightarrow> bool" where
  "eachChildOnce m \<longleftrightarrow>
     (\<forall>p. distinct (childrenOf m p))
     \<and> (\<forall>p q. p \<noteq> q \<longrightarrow> set (childrenOf m p) \<inter> set (childrenOf m q) = {})"

text \<open>No element that can be reached from the root lies on a cycle of the map.\<close>

definition noCycleBelowRoot :: "ElementTree \<Rightarrow> bool" where
  "noCycleBelowRoot t \<longleftrightarrow>
     (\<forall>e. (root t, e) \<in> (childEdges (elementsByParent t))\<^sup>*
          \<longrightarrow> (e, e) \<notin> (childEdges (elementsByParent t))\<^sup>+)"

text \<open>
  What the set \<^verbatim>\<open>processedElements\<close> keeps true of the map under construction: each
  child occurs once, and every child is a processed element.
\<close>

definition childrenTracked :: "build_state \<Rightarrow> bool" where
  "childrenTracked st \<longleftrightarrow>
     eachChildOnce (byParent st)
     \<and> (\<forall>p. set (childrenOf (byParent st) p) \<subseteq> processedElements st)"

text \<open>
  A page on which every hit test that finds anything ends at one element \<open>r\<close>, as the
  hit tests of a browser end at \<^verbatim>\<open><html>\<close>: every non-empty normalized list has \<open>r\<close> as
  its last entry and nowhere else, and \<open>r\<close> hosts no open shadow root.
\<close>

definition endsAtRoot :: "'n dom \<Rightarrow> 'n \<Rightarrow> 'n \<Rightarrow> elem \<Rightarrow> bool" where
  "endsAtRoot d x y r \<longleftrightarrow>
     \<not> openShadowRoot d r
     \<and> (\<forall>s elements.
           engineIndependentElementsFromPoint d x y s = ok elements \<and> elements \<noteq> []
           \<longrightarrow> last elements = r \<and> r \<notin> set (butlast elements))"

text \<open>
  A page whose hit tests do not follow the ancestry of its elements: \<open>0\<close> is
  \<^verbatim>\<open><html>\<close>, \<open>1\<close> its child and \<open>2\<close>, a child of \<open>1\<close>, hosts a shadow root. The document
  reports \<^verbatim>\<open><html>\<close> on top of both, and the shadow root reports \<^verbatim>\<open><html>\<close> and \<open>1\<close>.
\<close>

definition cyclicPage :: "int dom" where
  "cyclicPage =
     \<lparr>elementsFromPoint = (\<lambda>s x y.
          case s of Document \<Rightarrow> [0, 2, 1] | ShadowRoot h \<Rightarrow> if h = 2 then [0, 1] else []),
      parentNode = elementParents
        [(2, ElementNode 1), (1, ElementNode 0), (0, ScopeNode Document)],
      documentElement = Some 0,
      pointerEventsNone = (\<lambda>e. False),
      openShadowRoot = (\<lambda>e. e = 2)\<rparr>"

text \<open>The tree of \<open>geckoPage\<close> at (0, 0).\<close>

definition geckoTree :: ElementTree where
  "geckoTree = \<lparr>root = 0, elementsByParent = map_of [(2, [3]), (1, [2]), (0, [1])]\<rparr>"

text \<open>The tree of \<open>nestedPage\<close> at (0, 0), as the test expects it.\<close>

definition nestedTree :: ElementTree where
  "nestedTree =
     \<lparr>root = 0, elementsByParent = map_of [(3, [4]), (2, [3]), (1, [2]), (0, [1])]\<rparr>"

definition cyclicTree :: ElementTree where
  "cyclicTree = \<lparr>root = 0, elementsByParent = map_of [(2, [0]), (0, [1]), (1, [2])]\<rparr>"

section \<open>Evaluation on the example pages\<close>

lemmas page_defs =
  geckoPage_def geckoPageNone_def compatPage_def emptyShadowPage_def nestedPage_def
  detachedHostPage_def detachedElementPage_def layeredPage_def cyclicPage_def
  elementParents_def

lemma findRootNode_geckoPage_host:
  "findRootNode geckoPage (ElementNode 2) = Some (ScopeNode Document)"
  by (simp add: findRootNode.simps page_defs)

lemma findRootNode_geckoPageNone_host:
  "findRootNode geckoPageNone (ElementNode 2) = Some (ScopeNode Document)"
  by (simp add: findRootNode.simps page_defs)

lemma findRootNode_detached_host:
  "findRootNode detachedHostPage (ElementNode 5) = Some (OtherNode 0)"
  by (simp add: findRootNode.simps page_defs)

lemma findRootNode_layered_container:
  "findRootNode layeredPage (ElementNode 2) = Some (ScopeNode Document)"
  by (simp add: findRootNode.simps page_defs)

lemma elementTreeFromPoint_layeredPage:
  "elementTreeFromPoint layeredPage 0 0 Document = ok (Some layeredTree)"
  apply (simp add: elementTreeFromPoint_def recurse.simps stepUp.simps
      engineIndependentElementsFromPoint.simps findRootNode.simps page_defs
      lastIsDocumentElement_def trimHost_def initialState_def parentElement_def
      addToKeyedList_def enumerate_eq_zip upt_rec ok_def layeredTree_def)
  apply (rule ext)
  apply simp
  done

text \<open>
  The test \<^verbatim>\<open>shadow dom element pointer-events none but inner element pointer-events
  auto\<close> expects \<^verbatim>\<open>HTML > BODY > DIV#inside-shadow-dom-element\<close>: the host is expanded
  but never attached, and the inner element is found below \<^verbatim>\<open><body>\<close>.
\<close>

lemma elementTreeFromPoint_geckoPageNone:
  "elementTreeFromPoint geckoPageNone 0 0 Document
     = ok (Some \<lparr>root = 0, elementsByParent = map_of [(1, [3]), (0, [1])]\<rparr>)"
  apply (simp add: elementTreeFromPoint_def recurse.simps stepUp.simps
      engineIndependentElementsFromPoint.simps findRootNode.simps page_defs
      lastIsDocumentElement_def trimHost_def initialState_def parentElement_def
      addToKeyedList_def enumerate_eq_zip upt_rec ok_def)
  apply (rule ext)
  apply simp
  done

section \<open>The normalized point query\<close>

lemma isDocumentOrShadowRoot_iff: "isDocumentOrShadowRoot r \<longleftrightarrow> (\<exists>s. r = ScopeNode s)"
proof (cases r)
  case (ScopeNode s)
  then show ?thesis
    by (cases s) (simp_all add: isDocumentOrShadowRoot_def isShadowRoot_def)
qed (simp_all add: isDocumentOrShadowRoot_def isShadowRoot_def)

lemma engine_Document:
  "engineIndependentElementsFromPoint d x y Document = ok (elementsFromPoint d Document x y)"
  by (subst engineIndependentElementsFromPoint.simps) (simp add: Let_def)

lemma engine_last_documentElement:
  "lastIsDocumentElement d (elementsFromPoint d s x y) \<Longrightarrow>
   engineIndependentElementsFromPoint d x y s = ok (elementsFromPoint d s x y)"
  by (subst engineIndependentElementsFromPoint.simps) (cases s; simp add: Let_def)

lemma engine_ShadowRoot:
  "\<not> lastIsDocumentElement d (elementsFromPoint d (ShadowRoot host) x y) \<Longrightarrow>
   engineIndependentElementsFromPoint d x y (ShadowRoot host) =
     (case findRootNode d (ElementNode host) of
        None \<Rightarrow> None
      | Some (ScopeNode higherDom) \<Rightarrow>
          bindR (engineIndependentElementsFromPoint d x y higherDom)
            (\<lambda>higherElements.
               ok (elementsFromPoint d (ShadowRoot host) x y @ trimHost d host higherElements))
      | Some _ \<Rightarrow> throw ExpectedDocumentOrShadowRoot)"
  by (subst engineIndependentElementsFromPoint.simps) (simp add: Let_def)

subsection \<open>\<^verbatim>\<open>findRootNode\<close> finds the owning root\<close>

lemma findRootNode_of_owningRoot:
  "spec_owningRoot d n r \<Longrightarrow> findRootNode d n = Some r"
proof (induction rule: spec_owningRoot.induct)
  case (top n)
  then show ?case by (subst findRootNode.simps) simp
next
  case (up n p r)
  then show ?case by (subst findRootNode.simps) simp
qed

lemma owningRoot_of_findRootNode:
  assumes "findRootNode d n = Some r"
  shows "spec_owningRoot d n r"
  using assms
proof (induction rule: findRootNode.raw_induct [rotated, consumes 1, case_names step])
  case (step findRootNode' d n r)
  show ?case
  proof (cases "parentNode d n")
    case None
    with step(2) show ?thesis by (auto intro: spec_owningRoot.top)
  next
    case (Some p)
    with step show ?thesis by (auto intro: spec_owningRoot.up)
  qed
qed

lemma findRootNode_iff: "findRootNode d n = Some r \<longleftrightarrow> spec_owningRoot d n r"
  using findRootNode_of_owningRoot owningRoot_of_findRootNode by blast

lemma findRootNode_None_iff: "findRootNode d n = None \<longleftrightarrow> (\<forall>r. \<not> spec_owningRoot d n r)"
  using findRootNode_iff [of d n] by (cases "findRootNode d n") auto

lemma trimHost_eq:
  "trimHost d host outer =
     (if pointerEventsNone d host \<and> outer \<noteq> [] \<and> hd outer = host then tl outer else outer)"
  by (cases outer) (simp_all add: trimHost_def)

subsection \<open>The example pages\<close>

lemma parentNode_nestedPage:
  "parentNode nestedPage (ElementNode 4) = Some (ScopeNode (ShadowRoot 3))"
  "parentNode nestedPage (ElementNode 3) = Some (ScopeNode (ShadowRoot 2))"
  "parentNode nestedPage (ElementNode 2) = Some (ElementNode 1)"
  "parentNode nestedPage (ElementNode 1) = Some (ElementNode 0)"
  "parentNode nestedPage (ElementNode 0) = Some (ScopeNode Document)"
  "parentNode nestedPage (ScopeNode s) = None"
  by (simp_all add: page_defs)

lemma owningRoot_nestedPage_2: "spec_owningRoot nestedPage (ElementNode 2) (ScopeNode Document)"
  by (rule spec_owningRoot.up [OF parentNode_nestedPage(3)],
      rule spec_owningRoot.up [OF parentNode_nestedPage(4)],
      rule spec_owningRoot.up [OF parentNode_nestedPage(5)],
      rule spec_owningRoot.top [OF parentNode_nestedPage(6)])

lemma owningRoot_nestedPage_3: "spec_owningRoot nestedPage (ElementNode 3) (ScopeNode (ShadowRoot 2))"
  by (rule spec_owningRoot.up [OF parentNode_nestedPage(2)],
      rule spec_owningRoot.top [OF parentNode_nestedPage(6)])

lemma owningRoot_nestedPage_4: "spec_owningRoot nestedPage (ElementNode 4) (ScopeNode (ShadowRoot 3))"
  by (rule spec_owningRoot.up [OF parentNode_nestedPage(1)],
      rule spec_owningRoot.top [OF parentNode_nestedPage(6)])

lemma owningRoot_geckoPageNone_host:
  "spec_owningRoot geckoPageNone (ElementNode 2) (ScopeNode Document)"
  by (simp add: findRootNode_iff [symmetric] findRootNode.simps page_defs)

lemma owningRoot_geckoPage_body:
  "spec_owningRoot geckoPage (ElementNode 1) (ScopeNode Document)"
  by (simp add: findRootNode_iff [symmetric] findRootNode.simps page_defs)

lemma owningRoot_emptyShadowPage_host:
  "spec_owningRoot emptyShadowPage (ElementNode 2) (ScopeNode Document)"
  by (simp add: findRootNode_iff [symmetric] findRootNode.simps page_defs)

lemma owningRoot_detachedElementPage:
  "spec_owningRoot detachedElementPage (ElementNode 5) (ElementNode 5)"
  by (rule spec_owningRoot.top) (simp add: page_defs)

lemma engine_nestedPage_inner:
  "engineIndependentElementsFromPoint nestedPage 0 0 (ShadowRoot 3) = ok [4, 3, 2, 1, 0]"
  by (simp add: engineIndependentElementsFromPoint.simps findRootNode.simps page_defs
      lastIsDocumentElement_def trimHost_def)

subsection \<open>The two branches\<close>

text \<open>
  Claim C2 says that in the recursive branch the function returns the inner list
  followed by the outer list. On the page of the test \<^verbatim>\<open>pointer-events: none\<close>, asked
  from the shadow root of the host, the inner list is \<^verbatim>\<open>[div]\<close> and the query of the
  owning scope, the document, returns \<^verbatim>\<open>[host, body, html]\<close>, yet the result is
  \<^verbatim>\<open>[div, body, html]\<close>, as the test expects: the host is dropped first.
\<close>

theorem host_dropped_from_outer_list_counterexample:
  "elementsFromPoint geckoPageNone (ShadowRoot 2) 0 0 = [3]
   \<and> \<not> lastIsDocumentElement geckoPageNone [3]
   \<and> spec_owningRoot geckoPageNone (ElementNode 2) (ScopeNode Document)
   \<and> engineIndependentElementsFromPoint geckoPageNone 0 0 Document = ok [2, 1, 0]
   \<and> engineIndependentElementsFromPoint geckoPageNone 0 0 (ShadowRoot 2) = ok [3, 1, 0]
   \<and> [3, 1, 0] \<noteq> [3] @ [2, 1, 0 :: elem]"
proof -
  have "engineIndependentElementsFromPoint geckoPageNone 0 0 (ShadowRoot 2) = ok [3, 1, 0]"
    by (simp add: engineIndependentElementsFromPoint.simps findRootNode.simps page_defs
        lastIsDocumentElement_def trimHost_def)
  moreover have "engineIndependentElementsFromPoint geckoPageNone 0 0 Document = ok [2, 1, 0]"
    by (simp add: engine_Document page_defs)
  moreover have "elementsFromPoint geckoPageNone (ShadowRoot 2) 0 0 = [3]"
    by (simp add: page_defs)
  moreover have "\<not> lastIsDocumentElement geckoPageNone [3]"
    by (simp add: lastIsDocumentElement_def page_defs)
  ultimately show ?thesis
    using owningRoot_geckoPageNone_host by simp
qed

text \<open>
  Claim C2, as the function has it. The list of the host hit test is returned as it is
  when the scope is the document or when the last entry of that list is the document's
  root element. Otherwise the scope is a shadow root; let the root that owns its host be
  a scope (if it is not, the function throws, claim C8). The function queries that
  scope, recursively. When that query returns the list \<open>outer\<close>, the result is the inner
  list followed by \<open>outer\<close>, without the first entry of \<open>outer\<close> when the host is styled
  \<^verbatim>\<open>pointer-events: none\<close> and is that entry (claim C5). When that query throws or does
  not return, so does the call.
\<close>

theorem engineIndependentElementsFromPoint_result:
  "(s = Document \<or> lastIsDocumentElement d (elementsFromPoint d s x y)
      \<longrightarrow> engineIndependentElementsFromPoint d x y s = ok (elementsFromPoint d s x y))
   \<and> (\<forall>host parent outer.
         s = ShadowRoot host
         \<and> \<not> lastIsDocumentElement d (elementsFromPoint d s x y)
         \<and> spec_owningRoot d (ElementNode host) (ScopeNode parent)
         \<and> engineIndependentElementsFromPoint d x y parent = ok outer
       \<longrightarrow> engineIndependentElementsFromPoint d x y s =
             ok (elementsFromPoint d s x y @
                 (if pointerEventsNone d host \<and> outer \<noteq> [] \<and> hd outer = host
                  then tl outer else outer)))
   \<and> (\<forall>host parent.
         s = ShadowRoot host
         \<and> \<not> lastIsDocumentElement d (elementsFromPoint d s x y)
         \<and> spec_owningRoot d (ElementNode host) (ScopeNode parent)
         \<and> (\<forall>outer. engineIndependentElementsFromPoint d x y parent \<noteq> ok outer)
       \<longrightarrow> engineIndependentElementsFromPoint d x y s =
             engineIndependentElementsFromPoint d x y parent)"
proof (intro conjI allI impI)
  assume "s = Document \<or> lastIsDocumentElement d (elementsFromPoint d s x y)"
  then show "engineIndependentElementsFromPoint d x y s = ok (elementsFromPoint d s x y)"
    by (auto simp: engine_Document engine_last_documentElement)
next
  fix host parent outer
  assume a: "s = ShadowRoot host
         \<and> \<not> lastIsDocumentElement d (elementsFromPoint d s x y)
         \<and> spec_owningRoot d (ElementNode host) (ScopeNode parent)
         \<and> engineIndependentElementsFromPoint d x y parent = ok outer"
  then have s: "s = ShadowRoot host"
    and branch: "\<not> lastIsDocumentElement d (elementsFromPoint d (ShadowRoot host) x y)"
    and r: "findRootNode d (ElementNode host) = Some (ScopeNode parent)"
    and outer: "engineIndependentElementsFromPoint d x y parent = ok outer"
    by (auto simp: findRootNode_iff)
  show "engineIndependentElementsFromPoint d x y s =
             ok (elementsFromPoint d s x y @
                 (if pointerEventsNone d host \<and> outer \<noteq> [] \<and> hd outer = host
                  then tl outer else outer))"
    unfolding s by (simp only: engine_ShadowRoot [OF branch] r outer option.case node.case
        bindR_simps trimHost_eq)
next
  fix host parent
  assume a: "s = ShadowRoot host
         \<and> \<not> lastIsDocumentElement d (elementsFromPoint d s x y)
         \<and> spec_owningRoot d (ElementNode host) (ScopeNode parent)
         \<and> (\<forall>outer. engineIndependentElementsFromPoint d x y parent \<noteq> ok outer)"
  then have s: "s = ShadowRoot host"
    and branch: "\<not> lastIsDocumentElement d (elementsFromPoint d (ShadowRoot host) x y)"
    and r: "findRootNode d (ElementNode host) = Some (ScopeNode parent)"
    by (auto simp: findRootNode_iff)
  from a have "bindR (engineIndependentElementsFromPoint d x y parent) f =
      engineIndependentElementsFromPoint d x y parent" for f :: "elem list \<Rightarrow> elem list result"
    by (cases "engineIndependentElementsFromPoint d x y parent")
      (auto simp: ok_def bindR_def split: sum.splits)
  then show "engineIndependentElementsFromPoint d x y s =
             engineIndependentElementsFromPoint d x y parent"
    unfolding s by (simp only: engine_ShadowRoot [OF branch] r option.case node.case)
qed

theorem engineIndependentElementsFromPoint_result_witness:
  "engineIndependentElementsFromPoint compatPage 0 0 (ShadowRoot 2) = ok [3, 2, 1, 0]
   \<and> engineIndependentElementsFromPoint nestedPage 0 0 Document = ok [2, 1, 0]
   \<and> engineIndependentElementsFromPoint nestedPage 0 0 (ShadowRoot 2) = ok ([3] @ [2, 1, 0])
   \<and> engineIndependentElementsFromPoint nestedPage 0 0 (ShadowRoot 3)
       = ok ([4] @ [3] @ [2, 1, 0])"
proof -
  have compat: "engineIndependentElementsFromPoint compatPage 0 0 (ShadowRoot 2) = ok [3, 2, 1, 0]"
    using engineIndependentElementsFromPoint_result [of "ShadowRoot 2" compatPage 0 0]
    by (simp add: page_defs lastIsDocumentElement_def)
  have doc: "engineIndependentElementsFromPoint nestedPage 0 0 Document = ok [2, 1, 0]"
    using engineIndependentElementsFromPoint_result [of Document nestedPage 0 0]
    by (simp add: page_defs)
  have raw2: "elementsFromPoint nestedPage (ShadowRoot 2) 0 0 = [3]"
    and raw3: "elementsFromPoint nestedPage (ShadowRoot 3) 0 0 = [4]"
    and style: "\<not> pointerEventsNone nestedPage 2" "\<not> pointerEventsNone nestedPage 3"
    and last: "\<not> lastIsDocumentElement nestedPage [3]" "\<not> lastIsDocumentElement nestedPage [4]"
    by (simp_all add: page_defs lastIsDocumentElement_def)
  have outer: "engineIndependentElementsFromPoint nestedPage 0 0 (ShadowRoot 2) = ok ([3] @ [2, 1, 0])"
    using engineIndependentElementsFromPoint_result [of "ShadowRoot 2" nestedPage 0 0]
      owningRoot_nestedPage_2 doc
    by (simp add: raw2 style last)
  have "engineIndependentElementsFromPoint nestedPage 0 0 (ShadowRoot 3)
       = ok ([4] @ [3] @ [2, 1, 0])"
    using engineIndependentElementsFromPoint_result [of "ShadowRoot 3" nestedPage 0 0]
      owningRoot_nestedPage_3 outer
    by (simp add: raw3 style last)
  with compat doc outer show ?thesis by simp
qed

text \<open>
  Claim C5. In the recursive branch, with \<open>outer\<close> the list the recursive query
  returned: when the host of the queried shadow root is styled \<^verbatim>\<open>pointer-events: none\<close>
  and the first element of \<open>outer\<close> is that host, the host is dropped from \<open>outer\<close>
  before the concatenation; in every other case \<open>outer\<close> is appended as it is.
\<close>

theorem host_dropped_only_when_nonInteractive_and_first:
  assumes "\<not> lastIsDocumentElement d (elementsFromPoint d (ShadowRoot host) x y)"
    and "findRootNode d (ElementNode host) = Some (ScopeNode higherDom)"
    and "engineIndependentElementsFromPoint d x y higherDom = ok outer"
  shows "engineIndependentElementsFromPoint d x y (ShadowRoot host) =
           ok (elementsFromPoint d (ShadowRoot host) x y @
               (if pointerEventsNone d host \<and> outer \<noteq> [] \<and> hd outer = host
                then tl outer else outer))"
proof -
  have "trimHost d host outer =
          (if pointerEventsNone d host \<and> outer \<noteq> [] \<and> hd outer = host then tl outer else outer)"
    by (cases outer) (simp_all add: trimHost_def)
  then show ?thesis
    using assms by (simp add: engine_ShadowRoot)
qed

theorem host_dropped_only_when_nonInteractive_and_first_witness:
  "engineIndependentElementsFromPoint geckoPageNone 0 0 (ShadowRoot 2) = ok ([3] @ [1, 0])
   \<and> engineIndependentElementsFromPoint geckoPage 0 0 (ShadowRoot 2) = ok ([3] @ [2, 1, 0])"
proof -
  have n: "engineIndependentElementsFromPoint geckoPageNone 0 0 Document = ok [2, 1, 0]"
    by (simp add: engine_Document page_defs)
  have a: "engineIndependentElementsFromPoint geckoPage 0 0 Document = ok [2, 1, 0]"
    by (simp add: engine_Document page_defs)
  have "engineIndependentElementsFromPoint geckoPageNone 0 0 (ShadowRoot 2) = ok ([3] @ [1, 0])"
    using host_dropped_only_when_nonInteractive_and_first
      [OF _ findRootNode_geckoPageNone_host n]
    by (simp add: page_defs lastIsDocumentElement_def)
  moreover
  have "engineIndependentElementsFromPoint geckoPage 0 0 (ShadowRoot 2) = ok ([3] @ [2, 1, 0])"
    using host_dropped_only_when_nonInteractive_and_first
      [OF _ findRootNode_geckoPage_host a]
    by (simp add: page_defs lastIsDocumentElement_def)
  ultimately show ?thesis by simp
qed

text \<open>
  Claim C10 says that a shadow root whose hit test returns the empty list gets the
  normalized list of the outer scope. The shadow root of an element that is attached
  nowhere has nothing under any point and no outer scope: the function throws.
\<close>

theorem empty_shadow_list_of_detached_host_counterexample:
  "elementsFromPoint detachedElementPage (ShadowRoot 5) 0 0 = []
   \<and> engineIndependentElementsFromPoint detachedElementPage 0 0 Document = ok [1, 0]
   \<and> engineIndependentElementsFromPoint detachedElementPage 0 0 (ShadowRoot 5)
       = throw ExpectedDocumentOrShadowRoot"
  by (simp add: engineIndependentElementsFromPoint.simps findRootNode.simps page_defs
      lastIsDocumentElement_def)

text \<open>
  Claim C10, as the function has it. When the host hit test of a shadow root returns the
  empty list, the recursive branch runs, the empty list having no last entry, and what
  the call does is what the query of the outer scope does. If the root that owns the
  host is a scope and its query returns \<open>outer\<close>, the call returns \<open>outer\<close> after the
  empty inner list, without its first entry when the host is styled
  \<^verbatim>\<open>pointer-events: none\<close> and is that entry; if that query throws or does not return,
  so does the call. If the owning root is neither the document nor a shadow root, the call
  throws; if going up from the host never ends, the call does not return.
\<close>

theorem empty_shadow_list_takes_recursive_branch:
  assumes "elementsFromPoint d (ShadowRoot host) x y = []"
  shows "(\<forall>parent outer.
            spec_owningRoot d (ElementNode host) (ScopeNode parent)
            \<and> engineIndependentElementsFromPoint d x y parent = ok outer
          \<longrightarrow> engineIndependentElementsFromPoint d x y (ShadowRoot host) =
                ok ([] @ (if pointerEventsNone d host \<and> outer \<noteq> [] \<and> hd outer = host
                          then tl outer else outer)))
         \<and> (\<forall>parent.
            spec_owningRoot d (ElementNode host) (ScopeNode parent)
            \<and> (\<forall>outer. engineIndependentElementsFromPoint d x y parent \<noteq> ok outer)
          \<longrightarrow> engineIndependentElementsFromPoint d x y (ShadowRoot host) =
                engineIndependentElementsFromPoint d x y parent)
         \<and> (\<forall>r. spec_owningRoot d (ElementNode host) r \<and> \<not> isDocumentOrShadowRoot r
          \<longrightarrow> engineIndependentElementsFromPoint d x y (ShadowRoot host) =
                throw ExpectedDocumentOrShadowRoot)
         \<and> ((\<forall>r. \<not> spec_owningRoot d (ElementNode host) r)
          \<longrightarrow> engineIndependentElementsFromPoint d x y (ShadowRoot host) = None)"
proof -
  have branch: "\<not> lastIsDocumentElement d (elementsFromPoint d (ShadowRoot host) x y)"
    using assms by (simp add: lastIsDocumentElement_def)
  note eq = engine_ShadowRoot [OF branch]
  show ?thesis
  proof (intro conjI allI impI)
    fix parent outer
    assume "spec_owningRoot d (ElementNode host) (ScopeNode parent)
            \<and> engineIndependentElementsFromPoint d x y parent = ok outer"
    then show "engineIndependentElementsFromPoint d x y (ShadowRoot host) =
                ok ([] @ (if pointerEventsNone d host \<and> outer \<noteq> [] \<and> hd outer = host
                          then tl outer else outer))"
      using assms by (simp add: eq findRootNode_iff [symmetric] trimHost_eq)
  next
    fix parent
    assume a: "spec_owningRoot d (ElementNode host) (ScopeNode parent)
            \<and> (\<forall>outer. engineIndependentElementsFromPoint d x y parent \<noteq> ok outer)"
    then have "bindR (engineIndependentElementsFromPoint d x y parent) f =
        engineIndependentElementsFromPoint d x y parent" for f :: "elem list \<Rightarrow> elem list result"
      by (cases "engineIndependentElementsFromPoint d x y parent")
        (auto simp: ok_def bindR_def split: sum.splits)
    with a show "engineIndependentElementsFromPoint d x y (ShadowRoot host) =
                engineIndependentElementsFromPoint d x y parent"
      by (simp add: eq findRootNode_iff [symmetric])
  next
    fix r
    assume "spec_owningRoot d (ElementNode host) r \<and> \<not> isDocumentOrShadowRoot r"
    then show "engineIndependentElementsFromPoint d x y (ShadowRoot host) =
                throw ExpectedDocumentOrShadowRoot"
      by (cases r) (simp_all add: eq findRootNode_iff [symmetric] isDocumentOrShadowRoot_iff)
  next
    assume "\<forall>r. \<not> spec_owningRoot d (ElementNode host) r"
    then have "findRootNode d (ElementNode host) = None"
      by (simp add: findRootNode_None_iff)
    then show "engineIndependentElementsFromPoint d x y (ShadowRoot host) = None"
      by (simp add: eq)
  qed
qed

theorem empty_shadow_list_takes_recursive_branch_witness:
  "engineIndependentElementsFromPoint geckoPage 0 0 (ShadowRoot 1) = ok [2, 1, 0]
   \<and> engineIndependentElementsFromPoint nestedPage 0 0 (ShadowRoot 4) = ok [4, 3, 2, 1, 0]
   \<and> engineIndependentElementsFromPoint emptyShadowPage 0 0 (ShadowRoot 2) = ok [1, 0]
   \<and> engineIndependentElementsFromPoint detachedElementPage 0 0 (ShadowRoot 5)
       = throw ExpectedDocumentOrShadowRoot"
proof -
  have raw: "elementsFromPoint geckoPage (ShadowRoot 1) 0 0 = []"
    "elementsFromPoint nestedPage (ShadowRoot 4) 0 0 = []"
    "elementsFromPoint emptyShadowPage (ShadowRoot 2) 0 0 = []"
    "elementsFromPoint detachedElementPage (ShadowRoot 5) 0 0 = []"
    by (simp_all add: page_defs)
  have style: "\<not> pointerEventsNone geckoPage 1" "\<not> pointerEventsNone nestedPage 4"
    "pointerEventsNone emptyShadowPage 2"
    by (simp_all add: page_defs)
  have outer: "engineIndependentElementsFromPoint geckoPage 0 0 Document = ok [2, 1, 0]"
    "engineIndependentElementsFromPoint emptyShadowPage 0 0 Document = ok [2, 1, 0]"
    by (simp_all add: engine_Document page_defs)
  have a: "engineIndependentElementsFromPoint geckoPage 0 0 (ShadowRoot 1) = ok [2, 1, 0]"
    using empty_shadow_list_takes_recursive_branch [OF raw(1)]
      owningRoot_geckoPage_body outer(1) style(1)
    by auto
  have b: "engineIndependentElementsFromPoint nestedPage 0 0 (ShadowRoot 4) = ok [4, 3, 2, 1, 0]"
    using empty_shadow_list_takes_recursive_branch [OF raw(2)]
      owningRoot_nestedPage_4 engine_nestedPage_inner style(2)
    by auto
  have c: "engineIndependentElementsFromPoint emptyShadowPage 0 0 (ShadowRoot 2) = ok [1, 0]"
    using empty_shadow_list_takes_recursive_branch [OF raw(3)]
      owningRoot_emptyShadowPage_host outer(2) style(3)
    by auto
  have "\<not> isDocumentOrShadowRoot (ElementNode 5)"
    by (simp add: isDocumentOrShadowRoot_def isShadowRoot_def)
  then have e: "engineIndependentElementsFromPoint detachedElementPage 0 0 (ShadowRoot 5)
       = throw ExpectedDocumentOrShadowRoot"
    using empty_shadow_list_takes_recursive_branch [OF raw(4)]
      owningRoot_detachedElementPage
    by blast
  from a b c e show ?thesis by simp
qed

section \<open>Errors and early returns\<close>

text \<open>
  Claim C8. Where a function resolves a root node and that node is neither the document
  nor a shadow root, it throws: \<^verbatim>\<open>engineIndependentElementsFromPoint\<close> for the root node
  of the queried shadow root's host (resolved in the recursive branch), and
  \<^verbatim>\<open>dispatchToUnderlyingElements\<close> for the root node of \<^verbatim>\<open>currentTarget\<close> (resolved once
  the event is found not default-prevented and the target an element). The document and
  the shadow roots are the only nodes that pass the check.
\<close>

theorem invalid_root_node_raises:
  "(\<not> lastIsDocumentElement d (elementsFromPoint d (ShadowRoot host) x y)
      \<and> findRootNode d (ElementNode host) = Some r \<and> \<not> isDocumentOrShadowRoot r
    \<longrightarrow> engineIndependentElementsFromPoint d x y (ShadowRoot host)
          = throw ExpectedDocumentOrShadowRoot)
   \<and> (\<not> defaultPrevented event \<and> currentTarget event = Some (ElementNode target)
      \<and> findRootNode d (ElementNode target) = Some r \<and> \<not> isDocumentOrShadowRoot r
    \<longrightarrow> dispatchToUnderlyingElements d dispatchEvent w event
          = throw ExpectedDocumentOrShadowRoot)
   \<and> (isDocumentOrShadowRoot r
        \<longleftrightarrow> r = ScopeNode Document \<or> (\<exists>h. r = ScopeNode (ShadowRoot h)))"
proof (intro conjI impI)
  assume "\<not> lastIsDocumentElement d (elementsFromPoint d (ShadowRoot host) x y)
      \<and> findRootNode d (ElementNode host) = Some r \<and> \<not> isDocumentOrShadowRoot r"
  then show "engineIndependentElementsFromPoint d x y (ShadowRoot host)
          = throw ExpectedDocumentOrShadowRoot"
    by (cases r) (simp_all add: engine_ShadowRoot isDocumentOrShadowRoot_iff)
next
  assume "\<not> defaultPrevented event \<and> currentTarget event = Some (ElementNode target)
      \<and> findRootNode d (ElementNode target) = Some r \<and> \<not> isDocumentOrShadowRoot r"
  then show "dispatchToUnderlyingElements d dispatchEvent w event
          = throw ExpectedDocumentOrShadowRoot"
    by (cases r) (simp_all add: dispatchToUnderlyingElements_def isDocumentOrShadowRoot_iff)
next
  show "isDocumentOrShadowRoot r
        \<longleftrightarrow> r = ScopeNode Document \<or> (\<exists>h. r = ScopeNode (ShadowRoot h))"
    by (auto simp: isDocumentOrShadowRoot_def isShadowRoot_def split: node.splits scope.splits)
qed

theorem invalid_root_node_raises_witness:
  "engineIndependentElementsFromPoint detachedHostPage 0 0 (ShadowRoot 5)
     = throw ExpectedDocumentOrShadowRoot
   \<and> dispatchToUnderlyingElements detachedHostPage onlyCount 0
       \<lparr>defaultPrevented = False, currentTarget = Some (ElementNode 5), eventX = 0, eventY = 0\<rparr>
     = throw ExpectedDocumentOrShadowRoot
   \<and> \<not> isDocumentOrShadowRoot (OtherNode 0)"
  using invalid_root_node_raises [of detachedHostPage 5 0 0 "OtherNode 0"
      "\<lparr>defaultPrevented = False, currentTarget = Some (ElementNode 5), eventX = 0, eventY = 0\<rparr>"
      5 onlyCount 0]
    findRootNode_detached_host
  by (simp add: lastIsDocumentElement_def) (simp add: page_defs)

text \<open>
  Claim C9 says that \<^verbatim>\<open>dispatchToUnderlyingElements\<close> throws when \<^verbatim>\<open>currentTarget\<close> is
  not an element, and returns silently when the event is already default-prevented. The
  function tests \<^verbatim>\<open>event.defaultPrevented\<close> first: an event that is default-prevented and
  whose \<^verbatim>\<open>currentTarget\<close> is the document is not refused.
\<close>

theorem prevented_event_with_foreign_target_counterexample:
  "\<not> isElement (currentTarget
        \<lparr>defaultPrevented = True, currentTarget = Some (ScopeNode Document),
         eventX = 0, eventY = 0 :: int\<rparr>)
   \<and> dispatchToUnderlyingElements geckoPage onlyCount 0
        \<lparr>defaultPrevented = True, currentTarget = Some (ScopeNode Document),
         eventX = 0, eventY = 0\<rparr>
      \<noteq> throw ExpectedElement"
  by (simp add: isElement_def dispatchToUnderlyingElements_def ok_def throw_def)

text \<open>
  Claim C9, as the function has it: a default-prevented event makes the function return
  at once, whatever its target and whatever the page (no tree is built, nothing is
  dispatched, \<^verbatim>\<open>preventDefault\<close> is not called); an event that is not default-prevented
  and whose \<^verbatim>\<open>currentTarget\<close> is not an element makes it throw.
\<close>

theorem dispatch_preconditions:
  "(defaultPrevented event
      \<longrightarrow> dispatchToUnderlyingElements d dispatchEvent w event = ok (untouched w))
   \<and> (\<not> defaultPrevented event \<and> \<not> isElement (currentTarget event)
      \<longrightarrow> dispatchToUnderlyingElements d dispatchEvent w event = throw ExpectedElement)"
  by (auto simp: dispatchToUnderlyingElements_def isElement_def
      split: option.splits node.splits)

theorem dispatch_preconditions_witness:
  "dispatchToUnderlyingElements layeredPage onlyCount 0 (containerClick\<lparr>defaultPrevented := True\<rparr>)
     = ok \<lparr>dispatches = [], preventDefaultCalled = False, world = 0\<rparr>
   \<and> dispatchToUnderlyingElements detachedHostPage onlyCount 0
       \<lparr>defaultPrevented = True, currentTarget = Some (ElementNode 5), eventX = 0, eventY = 0\<rparr>
     = ok \<lparr>dispatches = [], preventDefaultCalled = False, world = 0\<rparr>
   \<and> dispatchToUnderlyingElements layeredPage onlyCount 0
       (containerClick\<lparr>currentTarget := Some (ScopeNode Document)\<rparr>)
     = throw ExpectedElement"
  using dispatch_preconditions [of "containerClick\<lparr>defaultPrevented := True\<rparr>"
      layeredPage onlyCount 0]
    dispatch_preconditions
      [of "\<lparr>defaultPrevented = True, currentTarget = Some (ElementNode 5),
             eventX = 0, eventY = 0\<rparr>"
        detachedHostPage onlyCount 0]
    dispatch_preconditions [of "containerClick\<lparr>currentTarget := Some (ScopeNode Document)\<rparr>"
      layeredPage onlyCount 0]
  by (simp add: containerClick_def isElement_def untouched_def)

section \<open>Tree construction\<close>

text \<open>
  Claim C6. When the normalized query of the top scope reports no element, the loop of
  \<^verbatim>\<open>recurse\<close> has nothing to run over, no root is set, and \<^verbatim>\<open>elementTreeFromPoint\<close>
  returns \<^verbatim>\<open>null\<close>.
\<close>

theorem no_element_no_tree:
  "engineIndependentElementsFromPoint d x y topScope = ok [] \<Longrightarrow>
   elementTreeFromPoint d x y topScope = ok None"
  by (simp add: elementTreeFromPoint_def recurse.simps [of d x y topScope] initialState_def)

theorem no_element_no_tree_witness:
  "engineIndependentElementsFromPoint geckoPage (- 1) (- 1) Document = ok []
   \<and> elementTreeFromPoint geckoPage (- 1) (- 1) Document = ok None"
proof -
  have e: "engineIndependentElementsFromPoint geckoPage (- 1) (- 1) Document = ok []"
    by (simp add: engine_Document page_defs)
  from no_element_no_tree [OF e] e show ?thesis by simp
qed


section \<open>Flattening\<close>

lemma flatMapO_unfolds:
  assumes "list_all (\<lambda>t. g (rootOf t) = Some (spec_postorder t)) ts"
  shows "flatMapO g (map rootOf ts) = Some (concat (map spec_postorder ts))"
  using assms by (induction ts) simp_all

lemma flatten_of_unfolds:
  "unfoldsTo m t \<Longrightarrow> flattenElementTree m (rootOf t) = Some (spec_postorder t)"
proof (induction t)
  case (Node r ts)
  have "list_all (\<lambda>t. flattenElementTree m (rootOf t) = Some (spec_postorder t)) ts"
    using Node by (simp add: list_all_iff)
  then have "flatMapO (flattenElementTree m) (map rootOf ts) = Some (concat (map spec_postorder ts))"
    by (rule flatMapO_unfolds)
  moreover have "map rootOf ts = childrenOf m r" using Node.prems by simp
  ultimately show ?case
    by (subst flattenElementTree.simps) simp
qed




lemma unfoldsTo_containerSubtree: "unfoldsTo (elementsByParent layeredTree) containerSubtree"
  by (simp add: layeredTree_def containerSubtree_def childrenOf_def)


section \<open>The default path\<close>

lemma firstChildOf_childrenOf:
  "firstChildOf m r = (case childrenOf m r of [] \<Rightarrow> None | c # _ \<Rightarrow> Some c)"
  by (simp add: firstChildOf_def childrenOf_def split: option.splits list.splits)

lemma defaultPath_of_unfolds:
  "unfoldsTo m t \<Longrightarrow> getDefaultPathElementSet m (rootOf t) = Some (set (spec_defaultPath t))"
proof (induction t)
  case (Node r ts)
  show ?case
  proof (cases ts)
    case Nil
    with Node.prems have "firstChildOf m r = None"
      by (simp add: firstChildOf_childrenOf split: list.splits)
    then show ?thesis
      using Nil by (subst getDefaultPathElementSet.simps) simp
  next
    case (Cons t ts')
    with Node.prems have c: "firstChildOf m r = Some (rootOf t)" and u: "unfoldsTo m t"
      by (auto simp: firstChildOf_childrenOf split: list.splits)
    have "getDefaultPathElementSet m (rootOf t) = Some (set (spec_defaultPath t))"
      using Node.IH [of t] Cons u by simp
    then show ?thesis
      using Cons c by (subst getDefaultPathElementSet.simps) simp
  qed
qed

section \<open>The dispatch loop\<close>

lemma dispatchLoop_order:
  "\<exists>rest. map fst (dispatches out) @ filter (\<lambda>e. e \<notin> dp) xs
      = map fst (dispatches (dispatchLoop h dp xs out)) @ rest"
proof (induction xs arbitrary: out)
  case Nil
  show ?case by simp
next
  case (Cons e es)
  show ?case
  proof (cases "e \<in> dp")
    case True
    then show ?thesis using Cons.IH [of out] by simp
  next
    case False
    obtain w' b where h: "h (world out) e = (w', b)" by (cases "h (world out) e")
    show ?thesis
    proof (cases b)
      case True
      then show ?thesis using False h by simp
    next
      case b: False
      from Cons.IH [of "out\<lparr>dispatches := dispatches out @ [(e, False)], world := w'\<rparr>"]
      show ?thesis using False h b by simp
    qed
  qed
qed

lemma dispatchLoop_cancel_last:
  assumes "\<forall>db \<in> set (dispatches out). \<not> snd db"
    and "i < length (dispatches (dispatchLoop h dp xs out))"
    and "snd (dispatches (dispatchLoop h dp xs out) ! i)"
  shows "preventDefaultCalled (dispatchLoop h dp xs out)
         \<and> Suc i = length (dispatches (dispatchLoop h dp xs out))"
  using assms
proof (induction xs arbitrary: out)
  case Nil
  then show ?case by (auto dest: nth_mem)
next
  case (Cons e es)
  show ?case
  proof (cases "e \<in> dp")
    case True
    then show ?thesis using Cons.IH [of out] Cons.prems by simp
  next
    case False
    obtain w' b where h: "h (world out) e = (w', b)" by (cases "h (world out) e")
    show ?thesis
    proof (cases b)
      case True
      have "i = length (dispatches out)"
      proof (rule ccontr)
        assume "i \<noteq> length (dispatches out)"
        with Cons.prems(2) False h True have lt: "i < length (dispatches out)" by simp
        then have "dispatches out ! i \<in> set (dispatches out)" by simp
        with Cons.prems(1) have "\<not> snd (dispatches out ! i)" by blast
        with Cons.prems(3) False h True lt show False by (simp add: nth_append)
      qed
      then show ?thesis using False h True by simp
    next
      case b: False
      let ?out' = "out\<lparr>dispatches := dispatches out @ [(e, False)], world := w'\<rparr>"
      have "\<forall>db \<in> set (dispatches ?out'). \<not> snd db" using Cons.prems(1) by simp
      from Cons.IH [OF this] Cons.prems(2,3) show ?thesis using False h b by simp
    qed
  qed
qed


text \<open>The call once the guards are passed and the tree is built (lines 59 to 80).\<close>

lemma dispatch_with_tree:
  assumes "\<not> defaultPrevented event"
    and "currentTarget event = Some (ElementNode target)"
    and "findRootNode d (ElementNode target) = Some (ScopeNode s)"
    and "elementTreeFromPoint d (eventX event) (eventY event) s = ok (Some tr)"
  shows "dispatchToUnderlyingElements d h w event =
           (case flattenElementTree (elementsByParent tr) target of
              None \<Rightarrow> None
            | Some subtree \<Rightarrow>
                (case getDefaultPathElementSet (elementsByParent tr) target of
                   None \<Rightarrow> None
                 | Some dp \<Rightarrow> ok (dispatchLoop h dp subtree (untouched w))))"
  using assms by (simp add: dispatchToUnderlyingElements_def)

text \<open>What a call that returns has done.\<close>

lemma dispatch_ok_cases:
  assumes "dispatchToUnderlyingElements d h w event = ok out"
  shows "out = untouched w
         \<or> (\<exists>dp subtree. out = dispatchLoop h dp subtree (untouched w))"
proof (cases "defaultPrevented event")
  case True
  then show ?thesis
    using assms by (simp add: dispatchToUnderlyingElements_def ok_def)
next
  case np: False
  from assms np obtain target where ct: "currentTarget event = Some (ElementNode target)"
    by (auto simp: dispatchToUnderlyingElements_def ok_def throw_def
        split: option.splits node.splits)
  from assms np ct obtain s where rn: "findRootNode d (ElementNode target) = Some (ScopeNode s)"
    by (auto simp: dispatchToUnderlyingElements_def ok_def throw_def
        split: option.splits node.splits)
  from assms np ct rn obtain tree
    where tree: "elementTreeFromPoint d (eventX event) (eventY event) s = ok tree"
    by (auto simp: dispatchToUnderlyingElements_def ok_def bindR_eq_ok)
  show ?thesis
  proof (cases tree)
    case None
    then show ?thesis
      using assms np ct rn tree by (simp add: dispatchToUnderlyingElements_def ok_def)
  next
    case (Some tr)
    then show ?thesis
      using assms dispatch_with_tree [OF np ct rn, of tr h w] tree
      by (auto simp: ok_def split: option.splits)
  qed
qed


lemma dispatch_containerClick:
  "dispatchToUnderlyingElements layeredPage h w containerClick
     = ok (dispatchLoop h {2, 7, 8} [8, 7, 6, 5, 4, 3, 2] (untouched w))"
proof -
  have r: "rootOf containerSubtree = 2"
    by (simp add: containerSubtree_def)
  have f: "flattenElementTree (elementsByParent layeredTree) 2 = Some [8, 7, 6, 5, 4, 3, 2]"
    using flatten_of_unfolds [OF unfoldsTo_containerSubtree]
    by (simp add: containerSubtree_def)
  have p: "getDefaultPathElementSet (elementsByParent layeredTree) 2 = Some {2, 7, 8}"
    using defaultPath_of_unfolds [OF unfoldsTo_containerSubtree]
    by (simp add: containerSubtree_def)
  have "dispatchToUnderlyingElements layeredPage h w containerClick =
           (case flattenElementTree (elementsByParent layeredTree) 2 of
              None \<Rightarrow> None
            | Some subtree \<Rightarrow>
                (case getDefaultPathElementSet (elementsByParent layeredTree) 2 of
                   None \<Rightarrow> None
                 | Some dp \<Rightarrow> ok (dispatchLoop h dp subtree (untouched w))))"
    by (rule dispatch_with_tree [where s = Document])
      (simp_all add: containerClick_def findRootNode_layered_container
        elementTreeFromPoint_layeredPage)
  then show ?thesis
    by (simp only: f p option.case)
qed

lemma dispatch_containerClick_cancelled:
  "dispatchToUnderlyingElements layeredPage cancelAtInsideLowest 0 containerClick
     = ok \<lparr>dispatches = [(6, False), (5, False), (4, True)],
           preventDefaultCalled = True, world = 3\<rparr>"
  by (simp add: dispatch_containerClick cancelAtInsideLowest_def untouched_def)


text \<open>
  Claim C4. The loop dispatches to the elements outside the default path in the order of
  the flattened subtree, and stops at the first dispatch whose clone comes back
  default-prevented: a dispatch that was prevented is the last one of the call, and
  \<^verbatim>\<open>event.preventDefault()\<close> has then been called on the original event. The first two
  parts are about the loop, which always ends; the third is about every call of
  \<^verbatim>\<open>dispatchToUnderlyingElements\<close> that returns.
\<close>

theorem cancelled_dispatch_ends_the_loop:
  "(\<exists>rest. filter (\<lambda>e. e \<notin> dp) subtree
        = map fst (dispatches (dispatchLoop h dp subtree (untouched w))) @ rest)
   \<and> (\<forall>i < length (dispatches (dispatchLoop h dp subtree (untouched w))).
         snd (dispatches (dispatchLoop h dp subtree (untouched w)) ! i)
         \<longrightarrow> preventDefaultCalled (dispatchLoop h dp subtree (untouched w))
             \<and> Suc i = length (dispatches (dispatchLoop h dp subtree (untouched w))))
   \<and> (dispatchToUnderlyingElements d h w event = ok out
       \<longrightarrow> (\<forall>i < length (dispatches out).
             snd (dispatches out ! i)
             \<longrightarrow> preventDefaultCalled out \<and> Suc i = length (dispatches out)))"
proof (intro conjI impI allI)
  show "\<exists>rest. filter (\<lambda>e. e \<notin> dp) subtree
        = map fst (dispatches (dispatchLoop h dp subtree (untouched w))) @ rest"
    using dispatchLoop_order [of "untouched w" dp subtree h]
    by (simp add: untouched_def)
next
  fix i
  assume "i < length (dispatches (dispatchLoop h dp subtree (untouched w)))"
    and "snd (dispatches (dispatchLoop h dp subtree (untouched w)) ! i)"
  then show "preventDefaultCalled (dispatchLoop h dp subtree (untouched w))"
    and "Suc i = length (dispatches (dispatchLoop h dp subtree (untouched w)))"
    using dispatchLoop_cancel_last [of "untouched w" i h dp subtree]
    by (simp_all add: untouched_def)
next
  fix i
  assume r: "dispatchToUnderlyingElements d h w event = ok out"
    and i: "i < length (dispatches out)" "snd (dispatches out ! i)"
  from dispatch_ok_cases [OF r] i
  have "preventDefaultCalled out \<and> Suc i = length (dispatches out)"
  proof (elim disjE exE)
    assume "out = untouched w"
    with i show ?thesis by (simp add: untouched_def)
  next
    fix dp' subtree'
    assume "out = dispatchLoop h dp' subtree' (untouched w)"
    with i show ?thesis
      using dispatchLoop_cancel_last [of "untouched w" i h dp' subtree']
      by (simp add: untouched_def)
  qed
  then show "preventDefaultCalled out" and "Suc i = length (dispatches out)"
    by simp_all
qed

theorem cancelled_dispatch_ends_the_loop_witness:
  "dispatchToUnderlyingElements layeredPage cancelAtInsideLowest 0 containerClick
     = ok \<lparr>dispatches = [(6, False), (5, False), (4, True)],
           preventDefaultCalled = True, world = 3\<rparr>
   \<and> snd ([(6, False), (5, False), (4 :: nat, True)] ! 2)
   \<and> preventDefaultCalled
       \<lparr>dispatches = [(6, False), (5, False), (4, True)],
        preventDefaultCalled = True, world = 3 :: int\<rparr>
   \<and> Suc 2 = length [(6, False), (5, False), (4 :: nat, True)]"
  using cancelled_dispatch_ends_the_loop
    [of "{}" "[]" cancelAtInsideLowest 0 layeredPage containerClick
      "\<lparr>dispatches = [(6, False), (5, False), (4, True)],
        preventDefaultCalled = True, world = 3\<rparr>"]
    dispatch_containerClick_cancelled
  by simp



section \<open>What the tree builder keeps true\<close>

subsection \<open>The recursion of \<^verbatim>\<open>recurse\<close>\<close>

lemma recurse_unfold:
  "recurse d x y s higher st =
     bindR (engineIndependentElementsFromPoint d x y s) (\<lambda>elements.
       forEachR (entryBody (recurse d x y) d elements higher) (enumerate 0 elements) st)"
  by (rule recurse.simps)


lemma stepUp_result:
  assumes "stepUp d element pp parent higher st = Some st'"
  shows "(\<exists>p \<in> pp. st' = st\<lparr>byParent := addToKeyedList (byParent st) p element,
                             processedElements := insert element (processedElements st)\<rparr>)
         \<or> st' = st\<lparr>rootVar := Some element\<rparr>"
  using assms
proof (induction rule: stepUp.raw_induct [rotated, consumes 1, case_names step])
  case (step stepUp' d element pp parent higher st st')
  show ?case
  proof (cases parent)
    case None
    then show ?thesis
      using step by (auto split: if_splits)
  next
    case (Some p)
    then show ?thesis
      using step by (auto split: if_splits)
  qed
qed


lemma recurse_raw_induct:
  assumes "recurse d x y s higher st = Some r"
    and "\<And>rec d x y s higher st r.
           (\<And>d x y s higher st r. rec d x y s higher st = Some r \<Longrightarrow> P d x y s higher st r) \<Longrightarrow>
           bindR (engineIndependentElementsFromPoint d x y s) (\<lambda>elements.
             forEachR (entryBody (rec d x y) d elements higher) (enumerate 0 elements) st)
             = Some r \<Longrightarrow>
           P d x y s higher st r"
  shows "P d x y s higher st r"
  by (rule recurse.raw_induct
      [where xa = "(((((d, x), y), s), higher), st)" and P = P, unfolded prod.case,
        OF assms(2) assms(1)])

subsection \<open>Loops\<close>

lemma bindR_ok_right [simp]: "bindR m ok = m"
  by (simp add: bindR_def ok_def split: option.splits sum.splits)

lemma bindR_assoc: "bindR (bindR m f) g = bindR m (\<lambda>v. bindR (f v) g)"
  by (simp add: bindR_def split: option.splits sum.splits)

lemma forEachR_Nil_fun: "forEachR body [] = ok"
  by (rule ext) simp

lemma forEachR_append:
  "forEachR body (vs @ ws) s = bindR (forEachR body vs s) (forEachR body ws)"
proof (induction vs arbitrary: s)
  case Nil
  show ?case by (simp add: ok_def)
next
  case (Cons v vs)
  have "forEachR body (vs @ ws) = (\<lambda>s. bindR (forEachR body vs s) (forEachR body ws))"
    by (rule ext) (rule Cons.IH)
  then show ?case by (simp add: bindR_assoc)
qed

lemma forEachR_invariant:
  assumes "forEachR body vs s = ok s'"
    and "I s"
    and "\<And>v s s'. v \<in> set vs \<Longrightarrow> I s \<Longrightarrow> body v s = ok s' \<Longrightarrow> I s'"
  shows "I s'"
  using assms
proof (induction vs arbitrary: s)
  case Nil
  then show ?case by (simp add: ok_def)
next
  case (Cons v vs)
  from Cons.prems(1) obtain s1 where b: "body v s = ok s1" and r: "forEachR body vs s1 = ok s'"
    by (auto simp: ok_def bindR_eq_ok)
  have "I s1" using Cons.prems(3) [OF _ Cons.prems(2) b] by simp
  show ?case
  proof (rule Cons.IH [OF r \<open>I s1\<close>])
    fix w t t'
    assume "w \<in> set vs" "I t" "body w t = ok t'"
    then show "I t'" using Cons.prems(3) [of w t t'] by simp
  qed
qed

subsection \<open>One entry of the loop of \<^verbatim>\<open>recurse\<close>\<close>

lemma entry_step:
  assumes run: "entryBody rec d elements higher (i, element) st = ok st'"
    and I: "I st"
    and nested: "\<And>s h st st'. rec s h st = ok st' \<Longrightarrow> I st \<Longrightarrow> I st'"
    and expand: "\<And>st e. I st \<Longrightarrow>
        I (st\<lparr>processedShadowRootElements := insert e (processedShadowRootElements st)\<rparr>)"
    and attach: "\<And>st p. I st \<Longrightarrow> element \<notin> processedElements st \<Longrightarrow>
        p \<in> set (drop (i + 1) elements) \<Longrightarrow>
        I (st\<lparr>byParent := addToKeyedList (byParent st) p element,
              processedElements := insert element (processedElements st)\<rparr>)"
    and top: "\<And>st. I st \<Longrightarrow> element \<notin> processedElements st \<Longrightarrow>
        \<not> (openShadowRoot d element \<and> element \<notin> processedShadowRootElements st) \<Longrightarrow>
        I (st\<lparr>rootVar := Some element\<rparr>)"
  shows "I st'"
proof (cases "element \<in> processedElements st")
  case True
  with run I show ?thesis by (simp add: ok_def)
next
  case unprocessed: False
  show ?thesis
  proof (cases "openShadowRoot d element \<and> element \<notin> processedShadowRootElements st")
    case True
    with run unprocessed
    have "rec (ShadowRoot element) (higher @ [element])
            (st\<lparr>processedShadowRootElements := insert element (processedShadowRootElements st)\<rparr>)
          = ok st'"
      by simp
    from nested [OF this expand [OF I]] show ?thesis .
  next
    case False
    with run unprocessed
    have "stepUp d element (set (drop (i + 1) elements)) (parentElement d element) higher st
          = Some st'"
      by (auto simp: ok_def split: option.splits)
    from stepUp_result [OF this] show ?thesis
      using attach [OF I unprocessed] top [OF I unprocessed False] by auto
  qed
qed

subsection \<open>Invariants of \<^verbatim>\<open>recurse\<close>\<close>

lemma recurse_invariant:
  assumes run: "recurse d x y s higher st = ok st'"
    and I: "I st"
    and expand: "\<And>st e. I st \<Longrightarrow>
        I (st\<lparr>processedShadowRootElements := insert e (processedShadowRootElements st)\<rparr>)"
    and attach: "\<And>st s elements i p. I st \<Longrightarrow>
        engineIndependentElementsFromPoint d x y s = ok elements \<Longrightarrow>
        i < length elements \<Longrightarrow> elements ! i \<notin> processedElements st \<Longrightarrow>
        p \<in> set (drop (i + 1) elements) \<Longrightarrow>
        I (st\<lparr>byParent := addToKeyedList (byParent st) p (elements ! i),
              processedElements := insert (elements ! i) (processedElements st)\<rparr>)"
    and top: "\<And>st e. I st \<Longrightarrow> I (st\<lparr>rootVar := Some e\<rparr>)"
  shows "I st'"
proof -
  have run': "recurse d x y s higher st = Some (Inr st')"
    using run by (simp add: ok_def)
  have "d = d \<and> x = x \<and> y = y
          \<longrightarrow> (\<forall>st''. (Inr st' :: error + build_state) = Inr st'' \<longrightarrow> I st \<longrightarrow> I st'')"
  proof (rule recurse_raw_induct
      [where P = "\<lambda>d' x' y' s higher st r.
          d' = d \<and> x' = x \<and> y' = y \<longrightarrow> (\<forall>st'. r = Inr st' \<longrightarrow> I st \<longrightarrow> I st')",
        OF run'])
    fix rec d' x' y' s higher st r
    assume IH: "\<And>d' x' y' s higher st r.
        rec d' x' y' s higher st = Some r \<Longrightarrow>
        d' = d \<and> x' = x \<and> y' = y \<longrightarrow> (\<forall>st'. r = Inr st' \<longrightarrow> I st \<longrightarrow> I st')"
      and body: "bindR (engineIndependentElementsFromPoint d' x' y' s) (\<lambda>elements.
             forEachR (entryBody (rec d' x' y') d' elements higher) (enumerate 0 elements) st)
             = Some r"
    show "d' = d \<and> x' = x \<and> y' = y \<longrightarrow> (\<forall>st'. r = Inr st' \<longrightarrow> I st \<longrightarrow> I st')"
    proof (intro impI allI)
      fix st'
      assume eq: "d' = d \<and> x' = x \<and> y' = y" and r: "r = Inr st'" and st: "I st"
      from body r eq obtain elements
        where el: "engineIndependentElementsFromPoint d x y s = ok elements"
          and loop: "forEachR (entryBody (rec d x y) d elements higher) (enumerate 0 elements) st
                     = ok st'"
        by (auto simp: bindR_eq_ok ok_def)
      show "I st'"
      proof (rule forEachR_invariant [where I = I, OF loop st])
        fix v s1 s2
        assume v: "v \<in> set (enumerate 0 elements)" and s1: "I s1"
          and b: "entryBody (rec d x y) d elements higher v s1 = ok s2"
        obtain i element where ve: "v = (i, element)" by (cases v)
        with v have i: "i < length elements" and e: "element = elements ! i"
          by (auto simp: in_set_enumerate_eq)
        show "I s2"
        proof (rule entry_step [where I = I, OF b [unfolded ve] s1])
          fix s h st st'
          assume "rec d x y s h st = ok st'" and "I st"
          with IH [of d x y s h st "Inr st'"] show "I st'" by (simp add: ok_def)
        next
          fix st e
          assume "I st"
          then show "I (st\<lparr>processedShadowRootElements := insert e (processedShadowRootElements st)\<rparr>)"
            by (rule expand)
        next
          fix st p
          assume "I st" "element \<notin> processedElements st" "p \<in> set (drop (i + 1) elements)"
          then show "I (st\<lparr>byParent := addToKeyedList (byParent st) p element,
                processedElements := insert element (processedElements st)\<rparr>)"
            using attach [OF _ el i] e by simp
        next
          fix st
          assume "I st"
          then show "I (st\<lparr>rootVar := Some element\<rparr>)" by (rule top)
        qed
      qed
    qed
  qed
  then show ?thesis using I by simp
qed


subsection \<open>Each child once\<close>

lemma childrenOf_addToKeyedList:
  "childrenOf (addToKeyedList m p c) q = (if q = p then childrenOf m p @ [c] else childrenOf m q)"
  by (simp add: childrenOf_def addToKeyedList_def Let_def split: option.splits)

lemma childrenTracked_attach:
  assumes "childrenTracked st" and "e \<notin> processedElements st"
  shows "childrenTracked
           (st\<lparr>byParent := addToKeyedList (byParent st) p e,
               processedElements := insert e (processedElements st)\<rparr>)"
proof -
  have fresh: "e \<notin> set (childrenOf (byParent st) q)" for q
    using assms by (auto simp: childrenTracked_def)
  show ?thesis
    using assms fresh
    by (auto simp: childrenTracked_def eachChildOnce_def childrenOf_addToKeyedList)
qed

lemma recurse_childrenTracked:
  assumes "recurse d x y s higher st = ok st'" and "childrenTracked st"
  shows "childrenTracked st'"
proof (rule recurse_invariant [where I = childrenTracked, OF assms])
  fix st e
  assume "childrenTracked st"
  then show "childrenTracked
      (st\<lparr>processedShadowRootElements := insert e (processedShadowRootElements st)\<rparr>)"
    by (simp add: childrenTracked_def)
next
  fix st :: build_state and elements :: "elem list" and i p
  assume "childrenTracked st" and "elements ! i \<notin> processedElements st"
  then show "childrenTracked
      (st\<lparr>byParent := addToKeyedList (byParent st) p (elements ! i),
          processedElements := insert (elements ! i) (processedElements st)\<rparr>)"
    by (rule childrenTracked_attach)
next
  fix st e
  assume "childrenTracked st"
  then show "childrenTracked (st\<lparr>rootVar := Some e\<rparr>)"
    by (simp add: childrenTracked_def)
qed

subsection \<open>Pages whose hit tests end at one root element\<close>

lemma endsAtRoot_not_last:
  assumes "endsAtRoot d x y r"
    and "engineIndependentElementsFromPoint d x y s = ok elements"
    and "p \<in> set (drop (i + 1) elements)"
  shows "elements ! i \<noteq> r"
proof -
  from assms(3) have ne: "elements \<noteq> []" and i: "i + 1 < length elements"
    by (auto simp: in_set_conv_nth)
  then have "i < length (butlast elements)" by simp
  then have "elements ! i \<in> set (butlast elements)"
    by (metis nth_butlast nth_mem)
  moreover have "r \<notin> set (butlast elements)"
    using assms(1,2) ne by (simp add: endsAtRoot_def)
  ultimately show ?thesis by auto
qed

lemma recurse_root_unprocessed:
  assumes W: "endsAtRoot d x y r"
    and run: "recurse d x y s higher st = ok st'"
    and st: "r \<notin> processedElements st"
  shows "r \<notin> processedElements st'"
proof (rule recurse_invariant [where I = "\<lambda>st. r \<notin> processedElements st", OF run st])
  fix st :: build_state and e
  assume "r \<notin> processedElements st"
  then show "r \<notin> processedElements
      (st\<lparr>processedShadowRootElements := insert e (processedShadowRootElements st)\<rparr>)"
    by simp
next
  fix st :: build_state and s elements i p
  assume "r \<notin> processedElements st"
    and "engineIndependentElementsFromPoint d x y s = ok elements"
    and "p \<in> set (drop (i + 1) elements)"
  then show "r \<notin> processedElements
      (st\<lparr>byParent := addToKeyedList (byParent st) p (elements ! i),
          processedElements := insert (elements ! i) (processedElements st)\<rparr>)"
    using endsAtRoot_not_last [OF W] by auto
next
  fix st :: build_state and e
  assume "r \<notin> processedElements st"
  then show "r \<notin> processedElements (st\<lparr>rootVar := Some e\<rparr>)" by simp
qed

lemma loop_root_unprocessed:
  assumes W: "endsAtRoot d x y r"
    and el: "engineIndependentElementsFromPoint d x y s = ok elements"
    and loop: "forEachR (entryBody (recurse d x y) d elements higher) vs st = ok st'"
    and vs: "set vs \<subseteq> set (enumerate 0 elements)"
    and st: "r \<notin> processedElements st"
  shows "r \<notin> processedElements st'"
proof (rule forEachR_invariant [where I = "\<lambda>st. r \<notin> processedElements st", OF loop st])
  fix v s1 s2
  assume v: "v \<in> set vs" and s1: "r \<notin> processedElements s1"
    and b: "entryBody (recurse d x y) d elements higher v s1 = ok s2"
  obtain i element where ve: "v = (i, element)" by (cases v)
  with v vs have e: "element = elements ! i"
    by (auto simp: in_set_enumerate_eq)
  show "r \<notin> processedElements s2"
  proof (rule entry_step [where I = "\<lambda>st. r \<notin> processedElements st", OF b [unfolded ve] s1])
    fix s h st st'
    assume "recurse d x y s h st = ok st'" and "r \<notin> processedElements st"
    then show "r \<notin> processedElements st'"
      by (rule recurse_root_unprocessed [OF W])
  next
    fix st :: build_state and e
    assume "r \<notin> processedElements st"
    then show "r \<notin> processedElements
        (st\<lparr>processedShadowRootElements := insert e (processedShadowRootElements st)\<rparr>)"
      by simp
  next
    fix st :: build_state and p
    assume a: "r \<notin> processedElements st" "element \<notin> processedElements st"
      "p \<in> set (drop (i + 1) elements)"
    show "r \<notin> processedElements
        (st\<lparr>byParent := addToKeyedList (byParent st) p element,
            processedElements := insert element (processedElements st)\<rparr>)"
      using a endsAtRoot_not_last [OF W el a(3)] e by simp
  next
    fix st :: build_state
    assume "r \<notin> processedElements st"
    then show "r \<notin> processedElements (st\<lparr>rootVar := Some element\<rparr>)" by simp
  qed
qed


lemma recurse_sets_root:
  assumes W: "endsAtRoot d x y r"
    and run: "recurse d x y s higher st = ok st'"
    and st: "r \<notin> processedElements st"
    and el: "engineIndependentElementsFromPoint d x y s = ok elements"
    and ne: "elements \<noteq> []"
  shows "rootVar st' = Some r"
proof -
  let ?body = "entryBody (recurse d x y) d elements higher"
  let ?n = "length (butlast elements)"
  have last: "last elements = r" and closed: "\<not> openShadowRoot d r"
    using W el ne by (simp_all add: endsAtRoot_def)
  have split: "elements = butlast elements @ [r]"
    using ne last by (metis append_butlast_last_id)
  have entries: "enumerate 0 elements = enumerate 0 (butlast elements) @ [(?n, r)]"
    by (subst split) (simp add: enumerate_append_eq)
  have "forEachR ?body (enumerate 0 elements) st = ok st'"
    using run el by (simp add: recurse_unfold [of d x y s] ok_def)
  then have "bindR (forEachR ?body (enumerate 0 (butlast elements)) st)
               (forEachR ?body [(?n, r)]) = ok st'"
    by (simp only: entries forEachR_append)
  then obtain s1 where pre: "forEachR ?body (enumerate 0 (butlast elements)) st = ok s1"
    and fin1: "forEachR ?body [(?n, r)] s1 = ok st'"
    unfolding ok_def bindR_eq_ok by blast
  from fin1 have fin: "?body (?n, r) s1 = ok st'"
    by (simp only: forEachR.simps(2) forEachR_Nil_fun bindR_ok_right)
  have "set (enumerate 0 (butlast elements)) \<subseteq> set (enumerate 0 elements)"
    by (simp only: entries set_append) blast
  from loop_root_unprocessed [OF W el pre this st]
  have s1: "r \<notin> processedElements s1" .
  have "drop (?n + 1) elements = []" by simp
  with fin s1 closed
  have "stepUp d r {} (parentElement d r) higher s1 = Some st'"
    by (auto simp: ok_def split: option.splits)
  from stepUp_result [OF this] show ?thesis by auto
qed

subsection \<open>A map whose root is no child has no cycle below the root\<close>

lemma unique_parent:
  assumes "eachChildOnce m" and "(p, c) \<in> childEdges m" and "(q, c) \<in> childEdges m"
  shows "p = q"
  using assms by (auto simp: eachChildOnce_def childEdges_def)

lemma no_cycle_below_root:
  assumes once: "eachChildOnce (elementsByParent t)"
    and top: "\<forall>p. root t \<notin> set (childrenOf (elementsByParent t) p)"
  shows "noCycleBelowRoot t"
  unfolding noCycleBelowRoot_def
proof (intro allI impI)
  let ?E = "childEdges (elementsByParent t)"
  fix e
  assume "(root t, e) \<in> (?E)\<^sup>*"
  then have onRoot: "(e, e) \<in> (?E)\<^sup>+ \<longrightarrow> (root t, root t) \<in> (?E)\<^sup>+"
  proof (induction rule: rtrancl_induct)
    case base
    show ?case by simp
  next
    case (step a b)
    show ?case
    proof
      assume "(b, b) \<in> (?E)\<^sup>+"
      then obtain c where c: "(b, c) \<in> (?E)\<^sup>*" "(c, b) \<in> ?E"
        by (meson tranclD2)
      from unique_parent [OF once c(2) step.hyps(2)] have "c = a" .
      with c step.hyps(2) have "(a, a) \<in> (?E)\<^sup>+" by auto
      with step.IH show "(root t, root t) \<in> (?E)\<^sup>+" by simp
    qed
  qed
  show "(e, e) \<notin> (?E)\<^sup>+"
  proof
    assume "(e, e) \<in> (?E)\<^sup>+"
    with onRoot have "(root t, root t) \<in> (?E)\<^sup>+" by simp
    then obtain p where "(p, root t) \<in> ?E" by (meson tranclD2)
    with top show False by (simp add: childEdges_def)
  qed
qed

subsection \<open>The returned tree\<close>

lemma childrenTracked_initialState: "childrenTracked initialState"
  by (simp add: childrenTracked_def eachChildOnce_def initialState_def childrenOf_def)

lemma elementTreeFromPoint_Some:
  assumes "elementTreeFromPoint d x y topScope = ok (Some t)"
  obtains st' elements where "recurse d x y topScope [] initialState = ok st'"
    and "rootVar st' = Some (root t)" and "byParent st' = elementsByParent t"
    and "engineIndependentElementsFromPoint d x y topScope = ok elements"
    and "elements \<noteq> []"
proof -
  from assms obtain st' where run: "recurse d x y topScope [] initialState = ok st'"
    and res: "(case rootVar st' of
                 Some r \<Rightarrow> Some \<lparr>root = r, elementsByParent = byParent st'\<rparr>
               | None \<Rightarrow> None) = Some t"
    by (auto simp: elementTreeFromPoint_def ok_def bindR_eq_ok)
  from res have r: "rootVar st' = Some (root t)" and m: "byParent st' = elementsByParent t"
    by (auto split: option.splits)
  from run obtain elements
    where el: "engineIndependentElementsFromPoint d x y topScope = ok elements"
      and loop: "forEachR (entryBody (recurse d x y) d elements []) (enumerate 0 elements)
                   initialState = ok st'"
    unfolding recurse_unfold [of d x y topScope] ok_def bindR_eq_ok by blast
  have "elements \<noteq> []"
  proof
    assume "elements = []"
    with loop have "st' = initialState" by (simp add: ok_def)
    with r show False by (simp add: initialState_def)
  qed
  with run r m el show ?thesis by (rule that)
qed

text \<open>
  Claim C3. The hit tests of a host list the elements under a point from the topmost to
  the bottommost, and the bottommost is the root element of the page: every non-empty
  normalized list ends with one element \<open>r\<close> (\<^verbatim>\<open><html>\<close>), which occurs nowhere else in
  it and hosts no open shadow root. On such a page the root of every tree that
  \<^verbatim>\<open>elementTreeFromPoint\<close> returns is \<open>r\<close>, the root is in no child list, no element
  occurs twice in one child list or in the child lists of two parents, and no element that
  can be reached from the root lies on a cycle. That no element occurs twice among the
  children is what the set of processed elements enforces, and needs no condition on the
  page; nor does the absence of cycles once the root is in no child list.
\<close>

theorem tree_children_occur_once:
  assumes "elementTreeFromPoint d x y topScope = ok (Some t)"
  shows "eachChildOnce (elementsByParent t)
         \<and> ((\<forall>p. root t \<notin> set (childrenOf (elementsByParent t) p)) \<longrightarrow> noCycleBelowRoot t)
         \<and> (endsAtRoot d x y r
              \<longrightarrow> root t = r
                  \<and> (\<forall>p. root t \<notin> set (childrenOf (elementsByParent t) p))
                  \<and> noCycleBelowRoot t)"
proof -
  from assms obtain st' elements
    where run: "recurse d x y topScope [] initialState = ok st'"
      and r: "rootVar st' = Some (root t)" and m: "byParent st' = elementsByParent t"
      and el: "engineIndependentElementsFromPoint d x y topScope = ok elements"
      and ne: "elements \<noteq> []"
    by (rule elementTreeFromPoint_Some)
  have tracked: "childrenTracked st'"
    using recurse_childrenTracked [OF run childrenTracked_initialState] .
  then have once: "eachChildOnce (elementsByParent t)"
    by (simp add: childrenTracked_def m)
  have acyclic: "noCycleBelowRoot t" if "\<forall>p. root t \<notin> set (childrenOf (elementsByParent t) p)"
    using once that by (rule no_cycle_below_root)
  have ends: "root t = r \<and> (\<forall>p. root t \<notin> set (childrenOf (elementsByParent t) p))"
    if W: "endsAtRoot d x y r"
  proof -
    have init: "r \<notin> processedElements initialState"
      by (simp add: initialState_def)
    from recurse_sets_root [OF W run init el ne] r have "root t = r" by simp
    moreover from recurse_root_unprocessed [OF W run init] tracked
    have "\<forall>p. r \<notin> set (childrenOf (elementsByParent t) p)"
      by (auto simp: childrenTracked_def m)
    ultimately show ?thesis by simp
  qed
  from once acyclic ends show ?thesis by blast
qed

lemma engine_geckoPage_Document:
  "engineIndependentElementsFromPoint geckoPage 0 0 Document = ok [2, 1, 0]"
  by (simp add: engine_Document page_defs)

lemma engine_geckoPage_ShadowRoot:
  "engineIndependentElementsFromPoint geckoPage 0 0 (ShadowRoot h) =
     (if h = 2 \<or> h = 3 then ok [3, 2, 1, 0]
      else if h = 0 \<or> h = 1 then ok [2, 1, 0]
      else throw ExpectedDocumentOrShadowRoot)"
proof -
  have two: "engineIndependentElementsFromPoint geckoPage 0 0 (ShadowRoot 2) = ok [3, 2, 1, 0]"
    by (simp add: engineIndependentElementsFromPoint.simps findRootNode.simps page_defs
        lastIsDocumentElement_def trimHost_def)
  consider "h = 0" | "h = 1" | "h = 2" | "h = 3" | "h \<noteq> 0" "h \<noteq> 1" "h \<noteq> 2" "h \<noteq> 3"
    by blast
  then show ?thesis
  proof cases
    case 1
    then show ?thesis
      by (simp add: engineIndependentElementsFromPoint.simps findRootNode.simps page_defs
          lastIsDocumentElement_def trimHost_def)
  next
    case 2
    then show ?thesis
      by (simp add: engineIndependentElementsFromPoint.simps findRootNode.simps page_defs
          lastIsDocumentElement_def trimHost_def)
  next
    case 3
    then show ?thesis using two by simp
  next
    case 4
    then show ?thesis
      by (simp add: engineIndependentElementsFromPoint.simps findRootNode.simps page_defs
          lastIsDocumentElement_def trimHost_def)
  next
    case 5
    then show ?thesis
      by (simp add: engineIndependentElementsFromPoint.simps [of _ _ _ "ShadowRoot h"]
          findRootNode.simps page_defs lastIsDocumentElement_def throw_def)
  qed
qed

lemma endsAtRoot_geckoPage: "endsAtRoot geckoPage 0 0 0"
  unfolding endsAtRoot_def
proof (intro conjI allI impI)
  show "\<not> openShadowRoot geckoPage 0" by (simp add: page_defs)
next
  fix s elements
  assume a: "engineIndependentElementsFromPoint geckoPage 0 0 s = ok elements \<and> elements \<noteq> []"
  then have "elements = [2, 1, 0] \<or> elements = [3, 2, 1, 0]"
    by (cases s)
      (auto simp: engine_geckoPage_Document engine_geckoPage_ShadowRoot ok_def throw_def
        split: if_splits)
  then show "last elements = 0" and "0 \<notin> set (butlast elements)" by auto
qed

lemma elementTreeFromPoint_geckoPage:
  "elementTreeFromPoint geckoPage 0 0 Document = ok (Some geckoTree)"
  apply (simp add: elementTreeFromPoint_def recurse.simps stepUp.simps
      engineIndependentElementsFromPoint.simps findRootNode.simps page_defs
      lastIsDocumentElement_def trimHost_def initialState_def parentElement_def
      addToKeyedList_def enumerate_eq_zip upt_rec ok_def geckoTree_def)
  apply (rule ext)
  apply simp
  done

lemmas engine_eval =
  engineIndependentElementsFromPoint.simps findRootNode.simps page_defs
  lastIsDocumentElement_def trimHost_def

lemma engine_compatPage_ShadowRoot:
  "engineIndependentElementsFromPoint compatPage 0 0 (ShadowRoot h) =
     (if h = 2 \<or> h = 3 then ok [3, 2, 1, 0]
      else if h = 0 \<or> h = 1 then ok [2, 1, 0]
      else throw ExpectedDocumentOrShadowRoot)"
proof -
  have two: "engineIndependentElementsFromPoint compatPage 0 0 (ShadowRoot 2) = ok [3, 2, 1, 0]"
    by (simp add: engine_eval)
  consider "h = 0" | "h = 1" | "h = 2" | "h = 3" | "h \<noteq> 0" "h \<noteq> 1" "h \<noteq> 2" "h \<noteq> 3"
    by blast
  then show ?thesis
  proof cases
    case 1
    then show ?thesis by (simp add: engine_eval)
  next
    case 2
    then show ?thesis by (simp add: engine_eval)
  next
    case 3
    then show ?thesis using two by simp
  next
    case 4
    then show ?thesis by (simp add: engine_eval)
  next
    case 5
    then show ?thesis
      by (simp add: engineIndependentElementsFromPoint.simps [of _ _ _ "ShadowRoot h"]
          findRootNode.simps page_defs lastIsDocumentElement_def throw_def)
  qed
qed

lemma endsAtRoot_compatPage: "endsAtRoot compatPage 0 0 0"
  unfolding endsAtRoot_def
proof (intro conjI allI impI)
  show "\<not> openShadowRoot compatPage 0" by (simp add: page_defs)
next
  fix s elements
  assume a: "engineIndependentElementsFromPoint compatPage 0 0 s = ok elements \<and> elements \<noteq> []"
  have "engineIndependentElementsFromPoint compatPage 0 0 Document = ok [2, 1, 0]"
    by (simp add: engine_Document page_defs)
  with a have "elements = [2, 1, 0] \<or> elements = [3, 2, 1, 0]"
    by (cases s) (auto simp: engine_compatPage_ShadowRoot ok_def throw_def split: if_splits)
  then show "last elements = 0" and "0 \<notin> set (butlast elements)" by auto
qed

lemma engine_nestedPage_ShadowRoot:
  "engineIndependentElementsFromPoint nestedPage 0 0 (ShadowRoot h) =
     (if h = 3 \<or> h = 4 then ok [4, 3, 2, 1, 0]
      else if h = 2 then ok [3, 2, 1, 0]
      else if h = 0 \<or> h = 1 then ok [2, 1, 0]
      else throw ExpectedDocumentOrShadowRoot)"
proof -
  have three: "engineIndependentElementsFromPoint nestedPage 0 0 (ShadowRoot 3) = ok [4, 3, 2, 1, 0]"
    by (simp add: engine_eval)
  have two: "engineIndependentElementsFromPoint nestedPage 0 0 (ShadowRoot 2) = ok [3, 2, 1, 0]"
    by (simp add: engine_eval)
  consider "h = 0" | "h = 1" | "h = 2" | "h = 3" | "h = 4"
    | "h \<noteq> 0" "h \<noteq> 1" "h \<noteq> 2" "h \<noteq> 3" "h \<noteq> 4"
    by blast
  then show ?thesis
  proof cases
    case 1
    then show ?thesis by (simp add: engine_eval)
  next
    case 2
    then show ?thesis by (simp add: engine_eval)
  next
    case 3
    then show ?thesis using two by simp
  next
    case 4
    then show ?thesis using three by simp
  next
    case 5
    then show ?thesis by (simp add: engine_eval)
  next
    case 6
    then show ?thesis
      by (simp add: engineIndependentElementsFromPoint.simps [of _ _ _ "ShadowRoot h"]
          findRootNode.simps page_defs lastIsDocumentElement_def throw_def)
  qed
qed

lemma endsAtRoot_nestedPage: "endsAtRoot nestedPage 0 0 0"
  unfolding endsAtRoot_def
proof (intro conjI allI impI)
  show "\<not> openShadowRoot nestedPage 0" by (simp add: page_defs)
next
  fix s elements
  assume a: "engineIndependentElementsFromPoint nestedPage 0 0 s = ok elements \<and> elements \<noteq> []"
  have "engineIndependentElementsFromPoint nestedPage 0 0 Document = ok [2, 1, 0]"
    by (simp add: engine_Document page_defs)
  with a have "elements = [2, 1, 0] \<or> elements = [3, 2, 1, 0] \<or> elements = [4, 3, 2, 1, 0]"
    by (cases s) (auto simp: engine_nestedPage_ShadowRoot ok_def throw_def split: if_splits)
  then show "last elements = 0" and "0 \<notin> set (butlast elements)" by auto
qed

lemmas tree_eval =
  elementTreeFromPoint_def recurse.simps stepUp.simps engine_eval initialState_def
  parentElement_def addToKeyedList_def enumerate_eq_zip upt_rec ok_def

lemma elementTreeFromPoint_compatPage:
  "elementTreeFromPoint compatPage 0 0 Document = ok (Some geckoTree)"
  apply (simp add: tree_eval geckoTree_def)
  apply (rule ext)
  apply simp
  done

lemma elementTreeFromPoint_nestedPage:
  "elementTreeFromPoint nestedPage 0 0 Document = ok (Some nestedTree)"
  apply (simp add: tree_eval nestedTree_def)
  apply (rule ext)
  apply simp
  done

text \<open>
  The same tree when the query starts from the innermost shadow root, as the test
  \<^verbatim>\<open>containing shadow dom element with query starting from most inner shadow root\<close>
  expects.
\<close>

lemma elementTreeFromPoint_nestedPage_inner:
  "elementTreeFromPoint nestedPage 0 0 (ShadowRoot 3) = ok (Some nestedTree)"
  apply (simp add: tree_eval nestedTree_def)
  apply (rule ext)
  apply simp
  done

theorem tree_children_occur_once_witness:
  "elementTreeFromPoint geckoPage 0 0 Document = ok (Some geckoTree)
   \<and> endsAtRoot geckoPage 0 0 0
   \<and> eachChildOnce (elementsByParent geckoTree)
   \<and> root geckoTree = 0
   \<and> noCycleBelowRoot geckoTree
   \<and> elementTreeFromPoint nestedPage 0 0 (ShadowRoot 3) = ok (Some nestedTree)
   \<and> endsAtRoot nestedPage 0 0 0
   \<and> eachChildOnce (elementsByParent nestedTree)
   \<and> root nestedTree = 0
   \<and> noCycleBelowRoot nestedTree"
  using tree_children_occur_once [OF elementTreeFromPoint_geckoPage, of 0]
    tree_children_occur_once [OF elementTreeFromPoint_nestedPage_inner, of 0]
    elementTreeFromPoint_geckoPage endsAtRoot_geckoPage
    elementTreeFromPoint_nestedPage_inner endsAtRoot_nestedPage
  by simp

subsection \<open>Hit tests out of order\<close>

lemma elementTreeFromPoint_cyclicPage:
  "elementTreeFromPoint cyclicPage 0 0 Document = ok (Some cyclicTree)"
  apply (simp add: elementTreeFromPoint_def recurse.simps stepUp.simps
      engineIndependentElementsFromPoint.simps findRootNode.simps page_defs
      lastIsDocumentElement_def trimHost_def initialState_def parentElement_def
      addToKeyedList_def enumerate_eq_zip upt_rec ok_def cyclicTree_def)
  apply (rule ext)
  apply simp
  done

lemma cyclicTree_cycle:
  "(root cyclicTree, root cyclicTree) \<in> (childEdges (elementsByParent cyclicTree))\<^sup>+"
proof -
  let ?E = "childEdges (elementsByParent cyclicTree)"
  have "(0, 1) \<in> ?E" "(1, 2) \<in> ?E" "(2, 0) \<in> ?E"
    by (simp_all add: childEdges_def childrenOf_def cyclicTree_def)
  then have "(0, 0) \<in> ?E\<^sup>+"
    by (meson trancl.intros)
  then show ?thesis by (simp add: cyclicTree_def)
qed

text \<open>
  The condition on the hit tests is needed. \<open>cyclicPage\<close> answers as no browser does,
  with \<^verbatim>\<open><html>\<close> on top of its descendants: there the root, which is never put into
  the set of processed elements, is attached below the host in the second scope, and the
  returned map has a cycle through the root.
\<close>

lemma cyclic_tree_on_unordered_lists:
  "elementTreeFromPoint cyclicPage 0 0 Document = ok (Some cyclicTree)
   \<and> root cyclicTree \<in> set (childrenOf (elementsByParent cyclicTree) 2)
   \<and> \<not> noCycleBelowRoot cyclicTree"
proof -
  have "\<not> noCycleBelowRoot cyclicTree"
    unfolding noCycleBelowRoot_def using cyclicTree_cycle by blast
  then show ?thesis
    by (simp add: elementTreeFromPoint_cyclicPage) (simp add: cyclicTree_def childrenOf_def)
qed

lemma not_endsAtRoot_cyclicPage: "\<not> endsAtRoot cyclicPage 0 0 r"
proof
  assume W: "endsAtRoot cyclicPage 0 0 r"
  have doc: "engineIndependentElementsFromPoint cyclicPage 0 0 Document = ok [0, 2, 1]"
    by (simp add: engine_Document page_defs)
  have sh: "engineIndependentElementsFromPoint cyclicPage 0 0 (ShadowRoot 2) = ok [0, 1, 0, 2, 1]"
    by (simp add: engine_eval)
  have ends: "last elements = r \<and> r \<notin> set (butlast elements)"
    if "engineIndependentElementsFromPoint cyclicPage 0 0 s = ok elements" "elements \<noteq> []"
    for s elements
    using W that unfolding endsAtRoot_def by blast
  from ends [OF doc] have "r = 1" by simp
  moreover from ends [OF sh] have "r \<noteq> 1" by auto
  ultimately show False by simp
qed

end
